theory Spec2Isabelle
  imports Complex_Main "HOL-Library.Word" "HOL-Library.Monad_Syntax"
begin

unbundle bit_operations_syntax

section \<open>OregonBridge: data model\<close>

text \<open>
  Arduino's \<open>byte\<close> is an unsigned 8-bit integer and \<open>word\<close> an unsigned 16-bit
  integer. \<open>unsigned int\<close> is 16 bits wide on the Arduino UNO; every use below masks
  the value to 8 bits, so the 32-bit \<open>unsigned int\<close> of the ESP8266 gives the same
  results.
\<close>

type_synonym byte = "8 word"
type_synonym word16 = "16 word"
type_synonym uint = "16 word"

text \<open>
  The anonymous enum of class \<open>DecodeOOK\<close> (SupportedDevices.h, lines 63-69).
\<close>

datatype dstate = UNKNOWN | T0 | T1 | T2 | T3 | OK | DONE

text \<open>
  The fields of class \<open>DecodeOOK\<close>:
  \<^verbatim>\<open>byte total_bits, bits, flip, state, pos, data[25];\<close>
  The array is a list; in every decoder the program builds it has \<open>sizeof_data\<close>
  elements.
\<close>

record DecodeOOK =
  total_bits :: byte
  bits :: byte
  flip :: byte
  state :: dstate
  pos :: byte
  data :: "byte list"

definition sizeof_data :: nat where
  "sizeof_data = 25"

text \<open>
  Reading and writing a byte of an array. An index outside the array is undefined
  behaviour in C++; the model has no result there (\<open>None\<close>).
\<close>

definition peek :: "byte list \<Rightarrow> nat \<Rightarrow> byte option" where
  "peek xs i = (if i < length xs then Some (xs ! i) else None)"

definition poke :: "byte list \<Rightarrow> nat \<Rightarrow> byte \<Rightarrow> byte list option" where
  "poke xs i v = (if i < length xs then Some (xs[i := v]) else None)"

section \<open>The bit accumulator (class DecodeOOK)\<close>

text \<open>
  \<^verbatim>\<open>void resetDecoder() { total_bits = bits = pos = flip = 0; state = UNKNOWN; }\<close>
  The array \<open>data\<close> is not touched.
\<close>

definition resetDecoder :: "DecodeOOK \<Rightarrow> DecodeOOK" where
  "resetDecoder s = s\<lparr>total_bits := 0, bits := 0, pos := 0, flip := 0, state := UNKNOWN\<rparr>"

text \<open>
  \<^verbatim>\<open>DecodeOOK() { resetDecoder(); }\<close>
  The constructor runs \<open>resetDecoder\<close> on the storage of the new object; the argument
  is that storage as it is when the constructor body starts.
\<close>

definition DecodeOOK_ctor :: "DecodeOOK \<Rightarrow> DecodeOOK" where
  "DecodeOOK_ctor storage = resetDecoder storage"

definition isDone :: "DecodeOOK \<Rightarrow> bool" where
  "isDone s = (state s = DONE)"

text \<open>
  \<^verbatim>\<open>const byte* getData(byte& count) const { count = pos; return data; }\<close>
\<close>

definition getData :: "DecodeOOK \<Rightarrow> byte list \<times> byte" where
  "getData s = (data s, pos s)"

text \<open>
  \<open>DecodeOOK::gotBit\<close> (SupportedDevices.h, lines 100-113):
  \<^verbatim>\<open>
  virtual void gotBit(char value) {
    total_bits++;
    byte* ptr = data + pos;
    *ptr = (*ptr >> 1) | (value << 7);
    if (++bits >= 8) {
      bits = 0;
      if (++pos >= sizeof data) { resetDecoder(); return; }
    }
    state = OK;
  }\<close>
  The value stored in \<open>*ptr\<close> is the low byte of the \<open>int\<close> expression, which is what
  the 8-bit operations below compute.
\<close>

definition gotBit :: "byte \<Rightarrow> DecodeOOK \<Rightarrow> DecodeOOK option" where
  "gotBit v s = do {
     let s1 = s\<lparr>total_bits := total_bits s + 1\<rparr>;
     d \<leftarrow> peek (data s1) (unat (pos s1));
     dat \<leftarrow> poke (data s1) (unat (pos s1)) (drop_bit 1 d OR push_bit 7 v);
     let s2 = s1\<lparr>data := dat\<rparr>;
     let b = bits s2 + 1;
     if 8 \<le> b then
       (let p = pos s2 + 1 in
        if sizeof_data \<le> unat p then Some (resetDecoder (s2\<lparr>bits := 0, pos := p\<rparr>))
        else Some (s2\<lparr>bits := 0, pos := p, state := OK\<rparr>))
     else Some (s2\<lparr>bits := b, state := OK\<rparr>)
   }"

text \<open>
  \<open>OregonDecoder_v2::gotBit\<close> (OregonDevice_v2.h, lines 47-59):
  \<^verbatim>\<open>
  virtual void gotBit(char value) {
    if (!(total_bits & 0x01)) {
      data[pos] = (data[pos] >> 1) | (value ? 0x80 : 00);
    }
    total_bits++;
    pos = total_bits >> 4;
    if (pos >= sizeof data) { resetDecoder(); return; }
    state = OK;
  }\<close>
\<close>

definition gotBit_v2 :: "byte \<Rightarrow> DecodeOOK \<Rightarrow> DecodeOOK option" where
  "gotBit_v2 v s = do {
     dat \<leftarrow> (if total_bits s AND 0x01 = 0 then do {
                d \<leftarrow> peek (data s) (unat (pos s));
                poke (data s) (unat (pos s)) (drop_bit 1 d OR (if v \<noteq> 0 then 0x80 else 0))
              } else Some (data s));
     let s1 = s\<lparr>data := dat, total_bits := total_bits s + 1\<rparr>;
     let s2 = s1\<lparr>pos := drop_bit 4 (total_bits s1)\<rparr>;
     if sizeof_data \<le> unat (pos s2) then Some (resetDecoder s2)
     else Some (s2\<lparr>state := OK\<rparr>)
   }"

text \<open>
  The two concrete decoder classes; a virtual call is a dispatch on the class.
\<close>

datatype decoder_class = OregonDecoder_v1 | OregonDecoder_v2

fun gotBit_virtual :: "decoder_class \<Rightarrow> byte \<Rightarrow> DecodeOOK \<Rightarrow> DecodeOOK option" where
  "gotBit_virtual OregonDecoder_v1 v s = gotBit v s"
| "gotBit_virtual OregonDecoder_v2 v s = gotBit_v2 v s"

text \<open>
  \<^verbatim>\<open>void manchester(char value) { flip ^= value; gotBit(flip); }\<close>
\<close>

definition manchester :: "decoder_class \<Rightarrow> byte \<Rightarrow> DecodeOOK \<Rightarrow> DecodeOOK option" where
  "manchester c v s = (let s1 = s\<lparr>flip := flip s XOR v\<rparr> in gotBit_virtual c (flip s1) s1)"

text \<open>
  \<^verbatim>\<open>void done() { while (bits) gotBit(0); state = DONE; }\<close>
  The loop need not end (the v2.1 \<open>gotBit\<close> never changes \<open>bits\<close>), so it is a partial
  function: \<open>None\<close> is "no result", by divergence or by an access outside the array.
\<close>

partial_function (option) done_loop :: "decoder_class \<Rightarrow> DecodeOOK \<Rightarrow> DecodeOOK option" where
  "done_loop c s = (if bits s \<noteq> 0 then Option.bind (gotBit_virtual c 0 s) (done_loop c) else Some s)"

definition done_decoder :: "decoder_class \<Rightarrow> DecodeOOK \<Rightarrow> DecodeOOK option" where
  "done_decoder c s = map_option (\<lambda>s'. s'\<lparr>state := DONE\<rparr>) (done_loop c s)"

section \<open>The pulse classifiers\<close>

text \<open>
  \<open>decode\<close> returns a \<open>char\<close>: -1 (failure), 0 (continue) or 1 (packet complete),
  together with the updated decoder.

  \<open>OregonDecoder_v1::decode\<close> ends, on every path that leaves the \<open>switch\<close> by
  \<open>break\<close>, with
  \<^verbatim>\<open>if (total_bits >= 32) return 1; return 0;\<close>
\<close>

definition fin_v1 :: "DecodeOOK \<Rightarrow> (int \<times> DecodeOOK) option" where
  "fin_v1 s = Some (if 32 \<le> total_bits s then 1 else 0, s)"

definition decode_v1 :: "word16 \<Rightarrow> DecodeOOK \<Rightarrow> (int \<times> DecodeOOK) option" where
  "decode_v1 width s =
    (if 900 \<le> width \<and> width \<le> 7000 then
       (let w = (2300 \<le> width) in
        case state s of
          UNKNOWN \<Rightarrow>
            if \<not> w then fin_v1 (s\<lparr>flip := flip s + 1\<rparr>)
            else if w \<and> 22 \<le> flip s then fin_v1 (s\<lparr>flip := 0, state := T1\<rparr>)
            else Some (-1, s)
        | OK \<Rightarrow>
            if \<not> w then fin_v1 (s\<lparr>state := T0\<rparr>)
            else Option.bind (manchester OregonDecoder_v1 1 s) fin_v1
        | T0 \<Rightarrow>
            if \<not> w then Option.bind (manchester OregonDecoder_v1 0 s) fin_v1
            else Some (-1, s)
        | T1 \<Rightarrow>
            if 5550 \<le> width \<and> width \<le> 6000 then fin_v1 (s\<lparr>state := T2\<rparr>)
            else Some (-1, s)
        | T2 \<Rightarrow>
            if 4800 \<le> width \<and> width \<le> 5400 then fin_v1 (s\<lparr>flip := 1, state := T0\<rparr>)
            else if 6480 \<le> width \<and> width \<le> 6880
              then Option.bind (gotBit_virtual OregonDecoder_v1 0 s) fin_v1
            else Some (-1, s)
        | _ \<Rightarrow> fin_v1 s)
     else Some (-1, s))"

text \<open>
  \<open>OregonDecoder_v2::decode\<close> (OregonDevice_v2.h, lines 61-116). Paths that leave the
  \<open>switch\<close> by \<open>break\<close> return 0.
\<close>

definition decode_v2 :: "word16 \<Rightarrow> DecodeOOK \<Rightarrow> (int \<times> DecodeOOK) option" where
  "decode_v2 width s =
    (if 200 \<le> width \<and> width < 1200 then
       (let w = (700 \<le> width) in
        case state s of
          UNKNOWN \<Rightarrow>
            if w then Some (0, s\<lparr>flip := flip s + 1\<rparr>)
            else if \<not> w \<and> 24 \<le> flip s then Some (0, s\<lparr>flip := 0, state := T0\<rparr>)
            else Some (-1, s)
        | OK \<Rightarrow>
            if \<not> w then Some (0, s\<lparr>state := T0\<rparr>)
            else map_option (Pair 0) (manchester OregonDecoder_v2 1 s)
        | T0 \<Rightarrow>
            if \<not> w then map_option (Pair 0) (manchester OregonDecoder_v2 0 s)
            else Some (-1, s)
        | _ \<Rightarrow> Some (0, s))
     else if 2500 \<le> width \<and> 8 \<le> pos s then Some (1, s)
     else Some (-1, s))"

fun decode_virtual :: "decoder_class \<Rightarrow> word16 \<Rightarrow> DecodeOOK \<Rightarrow> (int \<times> DecodeOOK) option" where
  "decode_virtual OregonDecoder_v1 width s = decode_v1 width s"
| "decode_virtual OregonDecoder_v2 width s = decode_v2 width s"

text \<open>
  \<open>DecodeOOK::nextPulse\<close> (SupportedDevices.h, lines 73-85):
  \<^verbatim>\<open>
  bool nextPulse(word width) {
    if (state != DONE)
      switch (decode(width)) {
        case -1: resetDecoder(); break;
        case 1:  done(); break;
      }
    return isDone();
  }\<close>
\<close>

definition nextPulse :: "decoder_class \<Rightarrow> word16 \<Rightarrow> DecodeOOK \<Rightarrow> (bool \<times> DecodeOOK) option" where
  "nextPulse c width s =
    (if state s \<noteq> DONE then do {
       (r, s1) \<leftarrow> decode_virtual c width s;
       s2 \<leftarrow> (if r = -1 then Some (resetDecoder s1)
              else if r = 1 then done_decoder c s1
              else Some s1);
       Some (isDone s2, s2)
     } else Some (isDone s, s))"

section \<open>The device models\<close>

subsection \<open>OregonDevice_v1\<close>

text \<open>
  \<open>OregonDevice_v1::validateChecksum\<close> (OregonDevice_v1.h):
  \<^verbatim>\<open>
  unsigned int i = 0, checksum = data[3], sum_of_bytes = 0;
  for (i = 0; i < 3; i++) sum_of_bytes += data[i];
  sum_of_bytes &= 0xff;
  bool success = sum_of_bytes == checksum;
  return success;\<close>
  The argument \<open>const byte* data\<close> is the list of bytes the pointer points to.
\<close>

function sum_of_bytes_loop :: "byte list \<Rightarrow> nat \<Rightarrow> uint \<Rightarrow> uint option" where
  "sum_of_bytes_loop dat i acc =
    (if i < 3 then
       (case peek dat i of
          None \<Rightarrow> None
        | Some d \<Rightarrow> sum_of_bytes_loop dat (i + 1) (acc + ucast d))
     else Some acc)"
  by pat_completeness auto
termination
  by (relation "measure (\<lambda>(dat, i, acc). 3 - i)") auto

declare sum_of_bytes_loop.simps [simp del]

definition validateChecksum_v1 :: "byte list \<Rightarrow> bool option" where
  "validateChecksum_v1 dat = do {
     c \<leftarrow> peek dat 3;
     let checksum = (ucast c :: uint);
     sum_of_bytes \<leftarrow> sum_of_bytes_loop dat 0 0;
     let sum_of_bytes = sum_of_bytes AND 0xff;
     Some (sum_of_bytes = checksum)
   }"

text \<open>
  \<open>OregonDevice_v1::getChannel\<close>:
  \<^verbatim>\<open>
  byte channel = 0;
  switch ((data[0] >> 4) & 0x0f) {
    case 0x0: case 0x2: channel = 1; break;
    case 0x4: channel = 2; break;
    case 0x8: channel = 3; break;
  }
  return channel;\<close>
\<close>

definition getChannel_v1 :: "byte list \<Rightarrow> byte option" where
  "getChannel_v1 dat = do {
     d0 \<leftarrow> peek dat 0;
     let code = drop_bit 4 d0 AND 0x0f;
     Some (if code = 0x0 \<or> code = 0x2 then 1
           else if code = 0x4 then 2
           else if code = 0x8 then 3
           else 0)
   }"

subsection \<open>OregonDevice_v2\<close>

text \<open>
  The \<open>switch\<close> of \<open>getChecksumPos\<close> and \<open>getRemoteModel\<close> is on
  \<^verbatim>\<open>(data[0] << 8) | data[1]\<close>
  an \<open>int\<close> whose low 16 bits are compared with the case labels; they are the 16-bit
  value below.
\<close>

definition remote_identifier :: "byte list \<Rightarrow> word16 option" where
  "remote_identifier dat = do {
     d0 \<leftarrow> peek dat 0;
     d1 \<leftarrow> peek dat 1;
     Some (push_bit 8 (ucast d0) OR ucast d1)
   }"

definition getChecksumPos :: "byte list \<Rightarrow> byte option" where
  "getChecksumPos dat = do {
     ident \<leftarrow> remote_identifier dat;
     Some (if ident = 0xea4c \<or> ident = 0x1a2d then 16 else 0)
   }"

definition getRemoteModel_v2 :: "byte list \<Rightarrow> string option" where
  "getRemoteModel_v2 dat = do {
     ident \<leftarrow> remote_identifier dat;
     Some (if ident = 0xea4c then ''THN132N''
           else if ident = 0x1a2d then ''THGR228N''
           else ''UNKNOWN'')
   }"

text \<open>
  \<open>OregonDevice_v2::validateChecksum\<close> (OregonDevice_v2.h, lines 136-177). The loop
  \<^verbatim>\<open>
  for (int i = 0; i < checksum_nibble_idx - 1; i += 2) {
    unsigned char val = data[i >> 1];
    sum_of_nibbles += ((val >> 4) + (val & 0x0f));
  }\<close>
  compares in \<open>int\<close>.
\<close>

function sum_of_nibbles_loop :: "byte list \<Rightarrow> byte \<Rightarrow> nat \<Rightarrow> uint \<Rightarrow> uint option" where
  "sum_of_nibbles_loop dat idx i acc =
    (if int i < uint idx - 1 then
       (case peek dat (i div 2) of
          None \<Rightarrow> None
        | Some val \<Rightarrow>
            sum_of_nibbles_loop dat idx (i + 2) (acc + (ucast (drop_bit 4 val) + ucast (val AND 0x0f))))
     else Some acc)"
  by pat_completeness auto
termination
  apply (relation "measure (\<lambda>(dat, idx, i, acc). unat idx - i)")
   apply simp
  apply simp
  unfolding unat_eq_nat_uint
  apply linarith
  done

declare sum_of_nibbles_loop.simps [simp del]

definition validateChecksum_v2 :: "byte list \<Rightarrow> bool option" where
  "validateChecksum_v2 dat = do {
     checksum_nibble_idx \<leftarrow> getChecksumPos dat;
     if checksum_nibble_idx = 0 then Some False
     else do {
       s \<leftarrow> sum_of_nibbles_loop dat checksum_nibble_idx 0 0;
       (sum_of_nibbles, checksum) \<leftarrow>
         (if checksum_nibble_idx AND 1 \<noteq> 0 then do {
            a \<leftarrow> peek dat (unat checksum_nibble_idx div 2);
            b \<leftarrow> peek dat ((unat checksum_nibble_idx + 1) div 2);
            Some (s + ucast (drop_bit 4 a),
                  (ucast (drop_bit 4 (b AND 0xf0)) OR push_bit 4 (ucast (a AND 0x0f))) :: uint)
          } else do {
            c \<leftarrow> peek dat (unat checksum_nibble_idx div 2);
            Some (s, ucast c)
          });
       let sum_of_nibbles = sum_of_nibbles - 0x0a;
       let sum_of_nibbles = sum_of_nibbles AND 0xff;
       Some (sum_of_nibbles = checksum)
     }
   }"

text \<open>
  \<open>OregonDevice_v2::getTemperature\<close>:
  \<^verbatim>\<open>
  int sign = (data[6] & 0x8) ? -1 : 1;
  float temp = ((data[5] & 0xF0) >> 4) * 10 + (data[5] & 0xF)
               + (float)(((data[4] & 0xF0) >> 4) / 10.0);
  return sign * temp;\<close>
  The result is a \<open>float\<close>. The model computes in exact arithmetic on \<open>real\<close>; it
  agrees with the program wherever the tenths digit divided by ten and the sum are
  representable in binary floating point (as 0.5 and 21.5 are), and is the value the
  \<open>float\<close> approximates elsewhere.
\<close>

definition getTemperature_v2 :: "byte list \<Rightarrow> real option" where
  "getTemperature_v2 dat = do {
     d6 \<leftarrow> peek dat 6;
     let sign = (if d6 AND 0x8 \<noteq> 0 then -1 else 1 :: int);
     d5 \<leftarrow> peek dat 5;
     d4 \<leftarrow> peek dat 4;
     let temp = real (unat (drop_bit 4 (d5 AND 0xF0)) * 10 + unat (d5 AND 0xF))
                + real (unat (drop_bit 4 (d4 AND 0xF0))) / 10;
     Some (real_of_int sign * temp)
   }"

text \<open>
  \<^verbatim>\<open>byte humidity = (data[7] & 0xF) * 10 + ((data[6] & 0xF0) >> 4);\<close>
  The \<open>int\<close> sum is at most 165, so the conversion to \<open>byte\<close> does not change it.
\<close>

definition getHumidity_v2 :: "byte list \<Rightarrow> byte option" where
  "getHumidity_v2 dat = do {
     d7 \<leftarrow> peek dat 7;
     d6 \<leftarrow> peek dat 6;
     Some ((d7 AND 0xF) * 10 + drop_bit 4 (d6 AND 0xF0))
   }"

text \<open>
  \<^verbatim>\<open>bool BatteryLevel = !(data[4] & 0x4);\<close>
\<close>

definition getBattery_v2 :: "byte list \<Rightarrow> bool option" where
  "getBattery_v2 dat = do {
     d4 \<leftarrow> peek dat 4;
     Some (d4 AND 0x4 = 0)
   }"

text \<open>
  \<^verbatim>\<open>return (1 << (((data[2] & 0xf0) >> 4) - 1));\<close>
  The shift count is an \<open>int\<close> between -1 and 14. A shift by a negative count is
  undefined behaviour: no result. Otherwise the \<open>int\<close> \<open>1 << n\<close> is converted to
  \<open>byte\<close>, which keeps its low 8 bits.
\<close>

definition getChannel_v2 :: "byte list \<Rightarrow> byte option" where
  "getChannel_v2 dat = do {
     d2 \<leftarrow> peek dat 2;
     let n = uint (drop_bit 4 (d2 AND 0xf0)) - 1;
     if n < 0 then None
     else Some (word_of_int (push_bit (nat n) (1 :: int)))
   }"

subsection \<open>Class Device and virtual dispatch\<close>

datatype device_class = OregonDevice_v1 | OregonDevice_v2

text \<open>
  The constructor of each device class creates its decoder:
  \<^verbatim>\<open>this->dDecoder = new OregonDecoder_v1();\<close> (and \<open>_v2\<close>).
\<close>

fun decoder_of :: "device_class \<Rightarrow> decoder_class" where
  "decoder_of OregonDevice_v1 = OregonDecoder_v1"
| "decoder_of OregonDevice_v2 = OregonDecoder_v2"

record Device =
  dclass :: device_class
  dDecoder :: DecodeOOK

fun validateChecksum :: "device_class \<Rightarrow> byte list \<Rightarrow> bool option" where
  "validateChecksum OregonDevice_v1 dat = validateChecksum_v1 dat"
| "validateChecksum OregonDevice_v2 dat = validateChecksum_v2 dat"

fun getChannel :: "device_class \<Rightarrow> byte list \<Rightarrow> byte option" where
  "getChannel OregonDevice_v1 dat = getChannel_v1 dat"
| "getChannel OregonDevice_v2 dat = getChannel_v2 dat"

text \<open>
  \<^verbatim>\<open>bool nextPulse(word width) { return this->dDecoder->nextPulse(width); }\<close>
\<close>

definition Device_nextPulse :: "word16 \<Rightarrow> Device \<Rightarrow> (bool \<times> Device) option" where
  "Device_nextPulse width d = do {
     (r, s) \<leftarrow> nextPulse (decoder_of (dclass d)) width (dDecoder d);
     Some (r, d\<lparr>dDecoder := s\<rparr>)
   }"

section \<open>The dispatcher (class OregonBridge)\<close>

text \<open>
  The fields of \<open>OregonBridge\<close> (OregonBridge.h): the first \<open>devicesCount\<close> entries of
  \<open>devices\<close>, the shared slot \<open>volatile word pulse\<close>, the callback pointer
  \<open>usrCallbackfunc\<close> (only whether it is null matters to the dispatcher) and the
  \<open>static word last\<close> of \<open>externalInterrupt\<close> (field \<open>last_static\<close>).
\<close>

record OregonBridge =
  devices :: "Device list"
  pulse :: word16
  usrCallbackfunc :: bool
  last_static :: word16

text \<open>
  An invocation of the user callback: the index of the device in \<open>devices\<close> and the
  bytes the \<open>data\<close> pointer points to at the call.
\<close>

type_synonym callback_call = "nat \<times> byte list"

text \<open>
  \<open>OregonBridge::dataToDecoder\<close>:
  \<^verbatim>\<open>
  DecodeOOK* decoder = device->decoder();
  byte pos;
  const byte* data = decoder->getData(pos);
  decoder->resetDecoder();
  return data;\<close>
  The pointer returned is into the decoder's own array, which \<open>resetDecoder\<close> leaves
  as it is.
\<close>

definition dataToDecoder :: "Device \<Rightarrow> byte list \<times> Device" where
  "dataToDecoder d =
    (let (dat, count) = getData (dDecoder d);
         d' = d\<lparr>dDecoder := resetDecoder (dDecoder d)\<rparr>
     in (data (dDecoder d'), d'))"

text \<open>
  The body of the \<open>for\<close> loop of \<open>OregonBridge::loop\<close> for the device at index \<open>kk\<close>:
  \<^verbatim>\<open>
  Device* d = devices[kk];
  if (!d->nextPulse(p)) continue;
  const byte* dataDecoded = dataToDecoder(d);
  if (!d->validateChecksum(dataDecoded)) continue;
  if (this->usrCallbackfunc) this->usrCallbackfunc(d, dataDecoded);
  printDetails(d, dataDecoded);\<close>
  \<open>printDetails\<close> does nothing unless \<open>OS_DEBUG\<close> is defined.
\<close>

definition loop_body :: "bool \<Rightarrow> word16 \<Rightarrow> nat \<Rightarrow> Device \<Rightarrow> (Device \<times> callback_call list) option" where
  "loop_body cb p kk d = do {
     (fin, d1) \<leftarrow> Device_nextPulse p d;
     if \<not> fin then Some (d1, [])
     else do {
       let (dataDecoded, d2) = dataToDecoder d1;
       valid \<leftarrow> validateChecksum (dclass d2) dataDecoded;
       if \<not> valid then Some (d2, [])
       else Some (d2, if cb then [(kk, dataDecoded)] else [])
     }
   }"

fun loop_devices :: "bool \<Rightarrow> word16 \<Rightarrow> nat \<Rightarrow> Device list \<Rightarrow> (Device list \<times> callback_call list) option" where
  "loop_devices cb p kk [] = Some ([], [])"
| "loop_devices cb p kk (d # ds) = do {
     (d', calls) \<leftarrow> loop_body cb p kk d;
     (ds', calls') \<leftarrow> loop_devices cb p (kk + 1) ds;
     Some (d' # ds', calls @ calls')
   }"

text \<open>
  \<open>OregonBridge::loop\<close> (OregonBridge.cpp, lines 72-101):
  \<^verbatim>\<open>
  word p = this->pulse;
  this->pulse = 0;
  if (p == 0) { interrupts(); return; }
  for (uint8_t kk = 0; kk < devicesCount; kk++) { ... }
  interrupts();\<close>
  The result is the new dispatcher and the callback invocations made, in order.
\<close>

definition loop :: "OregonBridge \<Rightarrow> (OregonBridge \<times> callback_call list) option" where
  "loop b =
    (let p = pulse b; b1 = b\<lparr>pulse := 0\<rparr> in
     if p = 0 then Some (b1, [])
     else do {
       (ds, calls) \<leftarrow> loop_devices (usrCallbackfunc b1) p 0 (devices b1);
       Some (b1\<lparr>devices := ds\<rparr>, calls)
     })"

text \<open>
  \<open>OregonBridge::externalInterrupt\<close>:
  \<^verbatim>\<open>
  static word last;
  pulse = micros() - last;
  last += this->pulse;\<close>
  \<open>micros()\<close> returns an \<open>unsigned long\<close> (32 bits); the difference is truncated to the
  16 bits of \<open>pulse\<close>.
\<close>

definition externalInterrupt :: "32 word \<Rightarrow> OregonBridge \<Rightarrow> OregonBridge" where
  "externalInterrupt micros b =
    (let p = (ucast (micros - ucast (last_static b)) :: word16) in
     b\<lparr>pulse := p, last_static := last_static b + p\<rparr>)"

text \<open>
  Construction. \<^verbatim>\<open>new OregonDecoder_v1()\<close> value-initialises the decoder: its storage is
  zeroed and then the constructor runs. \<open>OregonBridge::OregonBridge\<close> is
  \<open>INCLUDE_ALL_DEVICES\<close>, that is \<open>addDevice<OregonDevice_v1>(); addDevice<OregonDevice_v2>();\<close>
  with \<open>DEVICES_NUM = 2\<close>:
  \<^verbatim>\<open>
  if (this->devicesCount >= DEVICES_NUM) return;
  devices[this->devicesCount] = new T;
  this->devicesCount++;\<close>
  The sketches declare the bridge as a global object, so \<open>pulse\<close>, \<open>usrCallbackfunc\<close> and
  \<open>last\<close> start as zero.
\<close>

definition zeroed_storage :: DecodeOOK where
  "zeroed_storage =
     \<lparr>total_bits = 0, bits = 0, flip = 0, state = UNKNOWN, pos = 0, data = replicate sizeof_data 0\<rparr>"

definition new_Device :: "device_class \<Rightarrow> Device" where
  "new_Device c = \<lparr>dclass = c, dDecoder = DecodeOOK_ctor zeroed_storage\<rparr>"

definition DEVICES_NUM :: nat where
  "DEVICES_NUM = 2"

definition addDevice :: "device_class \<Rightarrow> OregonBridge \<Rightarrow> OregonBridge" where
  "addDevice c b =
     (if DEVICES_NUM \<le> length (devices b) then b else b\<lparr>devices := devices b @ [new_Device c]\<rparr>)"

definition OregonBridge_ctor :: OregonBridge where
  "OregonBridge_ctor =
     addDevice OregonDevice_v2 (addDevice OregonDevice_v1
       \<lparr>devices = [], pulse = 0, usrCallbackfunc = False, last_static = 0\<rparr>)"

text \<open>
  \<^verbatim>\<open>void registerCallback(osCallbackFunc f) { this->usrCallbackfunc = f; }\<close>
  with a function that is not null.
\<close>

definition registerCallback :: "OregonBridge \<Rightarrow> OregonBridge" where
  "registerCallback b = b\<lparr>usrCallbackfunc := True\<rparr>"

section \<open>Auxiliary definitions\<close>

text \<open>
  The summand of the nibble loop for one byte, as the 16-bit value the loop adds, and
  the same number as a natural number: high nibble plus low nibble.
\<close>

definition nib16 :: "byte \<Rightarrow> uint" where
  "nib16 v = ucast (drop_bit 4 v) + ucast (v AND 0x0f)"

definition nibbles :: "byte \<Rightarrow> nat" where
  "nibbles v = unat v div 16 + unat v mod 16"

text \<open>
  A sequence of calls of the bit-emission routine \<open>gotBit\<close> of a decoder, one value per
  call.
\<close>

fun gotBit_seq :: "decoder_class \<Rightarrow> byte list \<Rightarrow> DecodeOOK \<Rightarrow> DecodeOOK option" where
  "gotBit_seq c [] s = Some s"
| "gotBit_seq c (v # vs) s = Option.bind (gotBit_virtual c v s) (gotBit_seq c vs)"

text \<open>
  The bit-duplication rule in the words of the specification: \<open>k\<close> counts the bits
  offered so far; a bit offered when \<open>k\<close> is even is shifted into the byte at position
  \<open>k div 16\<close>, a bit offered when \<open>k\<close> is odd is discarded.
\<close>

fun every_other_commit :: "byte list \<Rightarrow> byte \<Rightarrow> byte list \<Rightarrow> byte list" where
  "every_other_commit [] k dat = dat"
| "every_other_commit (v # vs) k dat =
     every_other_commit vs (k + 1)
       (if even (unat k)
        then dat[unat k div 16 := drop_bit 1 (dat ! (unat k div 16)) OR (if v \<noteq> 0 then 0x80 else 0)]
        else dat)"

text \<open>
  The buffer of a decoder is in order when the array has its declared size and the byte
  position is inside it.
\<close>

definition buffer_ok :: "DecodeOOK \<Rightarrow> bool" where
  "buffer_ok s \<longleftrightarrow> length (data s) = sizeof_data \<and> unat (pos s) < sizeof_data"

text \<open>
  Two decoders in state \<open>OK\<close>: one that holds 24 complete bytes (192 bits), and one that
  holds 24 complete bytes and 7 bits of the last array element (199 bits).
\<close>

definition full24 :: DecodeOOK where
  "full24 = \<lparr>total_bits = 192, bits = 0, flip = 0, state = OK, pos = 24, data = replicate 25 0xFF\<rparr>"

definition full199 :: DecodeOOK where
  "full199 = \<lparr>total_bits = 199, bits = 7, flip = 0, state = OK, pos = 24, data = replicate 25 0\<rparr>"

text \<open>
  The Manchester encoding of the claim: each bit, relative to the bit before it, is a pair
  of short pulses (same bit) or one long pulse (flipped bit). \<open>short\<close> and \<open>long\<close> are
  the pulse widths used.
\<close>

fun manchester_encode :: "word16 \<Rightarrow> word16 \<Rightarrow> bool \<Rightarrow> bool list \<Rightarrow> word16 list" where
  "manchester_encode short long prev [] = []"
| "manchester_encode short long prev (b # bs) =
     (if b = prev then [short, short] else [long]) @ manchester_encode short long b bs"

text \<open>
  Feeding a sequence of pulse widths to \<open>decode\<close>, one call per pulse; the result is the
  list of return codes and the final decoder.
\<close>

fun decode_seq :: "decoder_class \<Rightarrow> word16 list \<Rightarrow> DecodeOOK \<Rightarrow> (int list \<times> DecodeOOK) option" where
  "decode_seq c [] s = Some ([], s)"
| "decode_seq c (w # ws) s = do {
     (r, s1) \<leftarrow> decode_virtual c w s;
     (rs, s2) \<leftarrow> decode_seq c ws s1;
     Some (r # rs, s2)
   }"

text \<open>
  The bits held by the buffer of the base class, in order of arrival. \<open>DecodeOOK::gotBit\<close>
  shifts each byte right and enters the new bit at bit 7, so a complete byte holds its
  eight bits first-arrived in bit 0, and the byte being filled holds its \<open>bits\<close> bits in
  its top positions.
\<close>

definition byte_bits :: "byte \<Rightarrow> bool list" where
  "byte_bits b = map (bit b) [0..<8]"

definition buffer_bits :: "DecodeOOK \<Rightarrow> bool list" where
  "buffer_bits s =
     concat (map byte_bits (take (unat (pos s)) (data s)))
     @ map (bit (data s ! unat (pos s))) [8 - unat (bits s)..<8]"

text \<open>
  The decoders as they are when they first reach state \<open>OK\<close> after the synchronisation
  pulses, with a first bit 0: the v1 decoder has stored it (\<open>T2\<close>, \<open>gotBit(0)\<close>), the v2.1
  decoder has offered it (\<open>T0\<close>, \<open>manchester(0)\<close>).
\<close>

definition v1_after_sync :: DecodeOOK where
  "v1_after_sync = \<lparr>total_bits = 1, bits = 1, flip = 0, state = OK, pos = 0, data = replicate 25 0\<rparr>"

definition v2_after_sync :: DecodeOOK where
  "v2_after_sync = \<lparr>total_bits = 1, bits = 0, flip = 0, state = OK, pos = 0, data = replicate 25 0\<rparr>"

text \<open>
  A decoder of a class is in order when its buffer is and its per-byte counter is one the
  class can produce: below 8 for the base \<open>gotBit\<close>, and 0 for the v2.1 \<open>gotBit\<close>, which
  never changes it. Every constructed decoder is in order and every operation keeps it so.
\<close>

fun bits_ok :: "decoder_class \<Rightarrow> DecodeOOK \<Rightarrow> bool" where
  "bits_ok OregonDecoder_v1 s = (unat (bits s) < 8)"
| "bits_ok OregonDecoder_v2 s = (bits s = 0)"

definition decoder_ok :: "decoder_class \<Rightarrow> DecodeOOK \<Rightarrow> bool" where
  "decoder_ok c s \<longleftrightarrow> buffer_ok s \<and> bits_ok c s"

definition device_ok :: "Device \<Rightarrow> bool" where
  "device_ok d = decoder_ok (decoder_of (dclass d)) (dDecoder d)"

text \<open>
  The callback invocations the specification prescribes for one device and one pulse:
  one invocation, with the decoded buffer, when a callback is registered, the classifier
  of the device reports completion for the pulse and \<open>validateChecksum\<close> returns true on
  the decoded buffer; none otherwise.
\<close>

definition expected_calls :: "bool \<Rightarrow> word16 \<Rightarrow> nat \<Rightarrow> Device \<Rightarrow> callback_call list" where
  "expected_calls cb p kk d =
     (case Device_nextPulse p d of
        Some (completed, d1) \<Rightarrow>
          if cb \<and> completed \<and> validateChecksum (dclass d) (data (dDecoder d1)) = Some True
          then [(kk, data (dDecoder d1))] else []
      | None \<Rightarrow> [])"

text \<open>
  The device after one pulse, as the specification prescribes: its classifier has
  consumed the pulse, and a classifier that reported completion has been reset.
\<close>

definition device_after_pulse :: "word16 \<Rightarrow> Device \<Rightarrow> Device" where
  "device_after_pulse p d =
     (case Device_nextPulse p d of
        Some (completed, d1) \<Rightarrow>
          if completed then d1\<lparr>dDecoder := resetDecoder (dDecoder d1)\<rparr> else d1
      | None \<Rightarrow> d)"

text \<open>
  A v2.1 decoder that has received the ten bytes of a packet of the specification, and a
  dispatcher holding it when the trailing pulse of 3000 microseconds arrives.
\<close>

definition v2_packet_received :: DecodeOOK where
  "v2_packet_received =
     \<lparr>total_bits = 160, bits = 0, flip = 0, state = OK, pos = 10,
      data = [0x1A, 0x2D, 0x20, 0x8B, 0x58, 0x21, 0x40, 0xC7, 0x4C, 0x8C] @ replicate 15 0\<rparr>"

definition bridge_at_sync_off :: OregonBridge where
  "bridge_at_sync_off =
     \<lparr>devices = [new_Device OregonDevice_v1,
                 \<lparr>dclass = OregonDevice_v2, dDecoder = v2_packet_received\<rparr>],
      pulse = 3000, usrCallbackfunc = True, last_static = 0\<rparr>"

section \<open>Bytes, words and array access\<close>

lemma peek_Cons_0: "peek (x # xs) 0 = Some x"
  by (simp add: peek_def)

lemma peek_Cons_Suc: "peek (x # xs) (Suc n) = peek xs n"
  by (simp add: peek_def)

lemma peek_Cons_numeral: "peek (x # xs) (numeral k) = peek xs (pred_numeral k)"
  by (simp add: peek_def numeral_eq_Suc)

lemmas peek_Cons = peek_Cons_0 peek_Cons_Suc peek_Cons_numeral

lemma ff16: "(0xff :: 16 word) = mask 8"
  by (simp add: mask_eq_exp_minus_1)

lemma f8: "(0x0f :: 8 word) = mask 4"
  by (simp add: mask_eq_exp_minus_1)

lemma unat8_lt: "unat (v :: 8 word) < 256"
  using unsigned_less [of v, where 'a = nat] by simp

lemma unat_ucast8: "unat (ucast (v :: 8 word) :: 16 word) = unat v"
proof -
  have "unat v < 2 ^ 16"
    using unat8_lt [of v] by simp
  then show ?thesis
    by (simp add: unsigned_ucast_eq take_bit_nat_eq_self)
qed

lemma unat_and_ff: "unat ((s :: 16 word) AND 0xff) = unat s mod 256"
  unfolding ff16 by (simp flip: take_bit_eq_mask) (simp add: take_bit_eq_mod unat_mod)

lemma mask8_eq:
  "((s :: 16 word) AND 0xff = ucast (c :: 8 word)) \<longleftrightarrow> unat s mod 256 = unat c"
  by (simp add: word_unat_eq_iff unat_and_ff unat_ucast8)

lemma unat_hi: "unat (ucast (drop_bit 4 (v :: 8 word)) :: 16 word) = unat v div 16"
  by (simp add: unat_ucast8 unat_drop_bit_eq drop_bit_eq_div unat_div)

lemma unat_lo: "unat (ucast ((v :: 8 word) AND 0x0f) :: 16 word) = unat v mod 16"
  unfolding f8 unat_ucast8 by (simp flip: take_bit_eq_mask) (simp add: take_bit_eq_mod unat_mod)

lemma unat_add16: "unat (a :: 16 word) + unat b < 65536 \<Longrightarrow> unat (a + b) = unat a + unat b"
  by (simp add: unat_word_ariths)

lemma unat_sum3:
  "unat (ucast (a :: 8 word) + ucast (b :: 8 word) + ucast (c :: 8 word) :: 16 word)
     = unat a + unat b + unat c"
  using unat8_lt [of a] unat8_lt [of b] unat8_lt [of c]
  by (simp add: unat_add16 unat_ucast8)

lemma unat_nib16: "unat (nib16 v) = nibbles v"
proof -
  have "unat v div 16 + unat v mod 16 < 2 ^ 16"
    using unat8_lt [of v] by simp
  then show ?thesis
    by (simp add: nib16_def nibbles_def unat_word_ariths(1) unat_hi unat_lo)
qed

lemma nibbles_le: "nibbles v \<le> 30"
  using unat8_lt [of v] by (simp add: nibbles_def)

lemma unat_sum8:
  "unat (nib16 d0 + nib16 d1 + nib16 d2 + nib16 d3 + nib16 d4 + nib16 d5 + nib16 d6 + nib16 d7)
     = nibbles d0 + nibbles d1 + nibbles d2 + nibbles d3
       + nibbles d4 + nibbles d5 + nibbles d6 + nibbles d7"
  using nibbles_le [of d0] nibbles_le [of d1] nibbles_le [of d2] nibbles_le [of d3]
        nibbles_le [of d4] nibbles_le [of d5] nibbles_le [of d6] nibbles_le [of d7]
  by (simp add: unat_add16 unat_nib16)

lemma sub10:
  "(((S :: 16 word) - 0x0a) AND 0xff = ucast (c :: 8 word))
     \<longleftrightarrow> (int (unat S) - 10) mod 256 = int (unat c)"
proof -
  have "int (unat (S - 0x0a) mod 256) = uint (S - 0x0a) mod 256"
    by (simp add: zmod_int)
  also have "\<dots> = ((uint S - 10) mod 65536) mod 256"
    by (simp add: uint_word_ariths)
  also have "\<dots> = (uint S - 10) mod 256"
    by (simp add: mod_mod_cancel)
  finally have "int (unat (S - 0x0a) mod 256) = (int (unat S) - 10) mod 256"
    by simp
  then show ?thesis
    unfolding mask8_eq by (metis of_nat_eq_iff)
qed

lemma ident_add:
  "(push_bit 8 (ucast (d0 :: 8 word)) OR ucast (d1 :: 8 word) :: 16 word) = ucast d0 * 256 + ucast d1"
proof -
  have "push_bit 8 (ucast d0) + (ucast d1 :: 16 word) = push_bit 8 (ucast d0) OR ucast d1"
    by (rule disjunctive_add) (auto simp: bit_simps dest: bit_imp_le_length)
  then show ?thesis
    by (simp add: push_bit_eq_mult mult.commute)
qed

lemma unat_ident:
  "unat (push_bit 8 (ucast (d0 :: 8 word)) OR ucast (d1 :: 8 word) :: 16 word) = unat d0 * 256 + unat d1"
proof -
  have m: "unat (ucast d0 * 256 :: 16 word) = unat d0 * 256"
    using unat8_lt [of d0] by (simp add: unat_word_ariths unat_ucast8)
  show ?thesis
    unfolding ident_add using unat8_lt [of d0] unat8_lt [of d1] m
    by (simp add: unat_add16 unat_ucast8)
qed

lemma ident_iff:
  "((push_bit 8 (ucast (d0 :: 8 word)) OR ucast (d1 :: 8 word) :: 16 word) = numeral k)
     \<longleftrightarrow> unat d0 * 256 + unat d1 = unat (numeral k :: 16 word)"
  by (simp only: word_unat_eq_iff unat_ident)

section \<open>Checksums\<close>

lemma sum_of_bytes_loop_eval:
  "sum_of_bytes_loop (d0 # d1 # d2 # rest) 0 0 = Some (ucast d0 + ucast d1 + ucast d2)"
  by (simp add: sum_of_bytes_loop.simps peek_Cons)

lemma validateChecksum_v1_eval:
  "validateChecksum_v1 (d0 # d1 # d2 # d3 # rest)
     = Some ((unat d0 + unat d1 + unat d2) mod 256 = unat d3)"
  by (simp add: validateChecksum_v1_def sum_of_bytes_loop_eval peek_Cons mask8_eq unat_sum3)

lemma getChecksumPos_eval:
  "getChecksumPos (d0 # d1 # rest)
     = Some (if unat d0 * 256 + unat d1 = 0xEA4C \<or> unat d0 * 256 + unat d1 = 0x1A2D then 16 else 0)"
  by (simp add: getChecksumPos_def remote_identifier_def peek_Cons ident_iff)

lemma sum_of_nibbles_loop_eval:
  "sum_of_nibbles_loop (d0 # d1 # d2 # d3 # d4 # d5 # d6 # d7 # rest) 16 0 0
     = Some (nib16 d0 + nib16 d1 + nib16 d2 + nib16 d3 + nib16 d4 + nib16 d5 + nib16 d6 + nib16 d7)"
  by (simp add: sum_of_nibbles_loop.simps peek_Cons nib16_def)

lemma validateChecksum_v2_eval:
  "validateChecksum_v2 (d0 # d1 # d2 # d3 # d4 # d5 # d6 # d7 # d8 # rest) =
     Some ((unat d0 * 256 + unat d1 = 0xEA4C \<or> unat d0 * 256 + unat d1 = 0x1A2D) \<and>
           (int (\<Sum>d\<leftarrow>[d0, d1, d2, d3, d4, d5, d6, d7]. unat d div 16 + unat d mod 16) - 0x0A)
             mod 256 = int (unat d8))"
proof -
  let ?S = "nib16 d0 + nib16 d1 + nib16 d2 + nib16 d3 + nib16 d4 + nib16 d5 + nib16 d6 + nib16 d7"
  have v: "validateChecksum_v2 (d0 # d1 # d2 # d3 # d4 # d5 # d6 # d7 # d8 # rest) =
      Some ((unat d0 * 256 + unat d1 = 0xEA4C \<or> unat d0 * 256 + unat d1 = 0x1A2D) \<and>
            ((?S - 0x0a) AND 0xff = ucast d8))"
    by (simp add: validateChecksum_v2_def getChecksumPos_eval sum_of_nibbles_loop_eval peek_Cons
          del: of_nat_add)
  have u: "unat ?S = (\<Sum>d\<leftarrow>[d0, d1, d2, d3, d4, d5, d6, d7]. unat d div 16 + unat d mod 16)"
    by (simp add: unat_sum8 nibbles_def)
  show ?thesis
    by (simp only: v sub10 u)
qed

section \<open>The bit-emission routines\<close>

lemma and1_even: "((x :: 8 word) AND 0x01 = 0) \<longleftrightarrow> even (unat x)"
proof -
  have "(x AND 1 = 0) \<longleftrightarrow> x mod 2 = 0"
    by (simp add: and_one_eq)
  also have "\<dots> \<longleftrightarrow> unat (x mod 2) = 0"
    by (simp add: unat_eq_0)
  also have "\<dots> \<longleftrightarrow> unat x mod 2 = 0"
    by (simp add: unat_mod)
  finally show ?thesis
    by (simp add: even_iff_mod_2_eq_zero)
qed

lemma unat_shift4: "unat (drop_bit 4 (x :: 8 word)) = unat x div 16"
  by (simp add: unat_drop_bit_eq drop_bit_eq_div unat_div)

lemma shift4_lt: "unat (drop_bit 4 (x :: 8 word)) < 16"
  using unat8_lt [of x] by (simp add: unat_shift4)

lemma unat_byte_Suc: "unat (p :: 8 word) < 255 \<Longrightarrow> unat (p + 1) = unat p + 1"
  by (simp add: unat_word_ariths)

lemma gotBit_v2_step:
  assumes "length (data s) = sizeof_data" "unat (pos s) = unat (total_bits s) div 16"
  shows "gotBit_v2 v s = Some (s\<lparr>data := every_other_commit [v] (total_bits s) (data s),
            total_bits := total_bits s + 1, pos := drop_bit 4 (total_bits s + 1), state := OK\<rparr>)"
proof -
  have p: "unat (pos s) < length (data s)"
    using assms unat8_lt [of "total_bits s"] by (simp add: sizeof_data_def)
  have q: "\<not> sizeof_data \<le> unat (drop_bit 4 (total_bits s + 1))"
    using shift4_lt [of "total_bits s + 1"] by (simp add: sizeof_data_def)
  show ?thesis
    using p q assms(2)
    by (simp add: gotBit_v2_def peek_def poke_def and1_even Let_def)
qed

lemma gotBit_v2_seq:
  assumes "length (data s) = sizeof_data" "unat (pos s) = unat (total_bits s) div 16"
  shows "\<exists>s'. gotBit_seq OregonDecoder_v2 vs s = Some s'
           \<and> data s' = every_other_commit vs (total_bits s) (data s)
           \<and> total_bits s' = total_bits s + of_nat (length vs)
           \<and> unat (pos s') = unat (total_bits s') div 16
           \<and> bits s' = bits s \<and> flip s' = flip s"
  using assms
proof (induction vs arbitrary: s)
  case Nil
  then show ?case by simp
next
  case (Cons v vs)
  define s1 where "s1 = s\<lparr>data := every_other_commit [v] (total_bits s) (data s),
            total_bits := total_bits s + 1, pos := drop_bit 4 (total_bits s + 1), state := OK\<rparr>"
  have 1: "gotBit_v2 v s = Some s1"
    unfolding s1_def using Cons.prems by (rule gotBit_v2_step)
  have l: "length (data s1) = sizeof_data"
    using Cons.prems(1) by (simp add: s1_def)
  have p: "unat (pos s1) = unat (total_bits s1) div 16"
    by (simp add: s1_def unat_shift4)
  from Cons.IH [OF l p] obtain s' where s':
    "gotBit_seq OregonDecoder_v2 vs s1 = Some s'"
    "data s' = every_other_commit vs (total_bits s1) (data s1)"
    "total_bits s' = total_bits s1 + of_nat (length vs)"
    "unat (pos s') = unat (total_bits s') div 16"
    "bits s' = bits s1" "flip s' = flip s1"
    by blast
  have d: "data s' = every_other_commit (v # vs) (total_bits s) (data s)"
    using s'(2) by (simp add: s1_def)
  have t: "total_bits s' = total_bits s + of_nat (length (v # vs))"
    using s'(3) by (simp add: s1_def)
  have "gotBit_seq OregonDecoder_v2 (v # vs) s = Some s'"
    using 1 s'(1) by simp
  with d t s'(4,5,6) show ?case
    by (simp add: s1_def)
qed

lemma gotBit_eval:
  assumes "unat (pos s) < length (data s)"
  shows "gotBit v s = Some
     (let s2 = s\<lparr>total_bits := total_bits s + 1,
                  data := (data s)[unat (pos s) := drop_bit 1 (data s ! unat (pos s)) OR push_bit 7 v]\<rparr>
      in if 8 \<le> bits s + 1
         then (if sizeof_data \<le> unat (pos s + 1)
               then resetDecoder (s2\<lparr>bits := 0, pos := pos s + 1\<rparr>)
               else s2\<lparr>bits := 0, pos := pos s + 1, state := OK\<rparr>)
         else s2\<lparr>bits := bits s + 1, state := OK\<rparr>)"
  using assms by (simp add: gotBit_def peek_def poke_def Let_def)

lemma gotBit_buffer_ok:
  assumes "buffer_ok s"
  shows "\<exists>s'. gotBit v s = Some s' \<and> buffer_ok s'"
proof -
  have p: "unat (pos s) < length (data s)" "unat (pos s) < 25" "length (data s) = 25"
    using assms by (simp_all add: buffer_ok_def sizeof_data_def)
  then have u: "unat (pos s + 1) = unat (pos s) + 1"
    by (simp add: unat_byte_Suc)
  show ?thesis
    using p u by (auto simp: gotBit_eval [OF p(1)] Let_def buffer_ok_def resetDecoder_def sizeof_data_def)
qed

lemma gotBit_v2_buffer_ok:
  assumes "buffer_ok s"
  shows "\<exists>s'. gotBit_v2 v s = Some s' \<and> buffer_ok s'"
proof -
  have p: "unat (pos s) < length (data s)" "length (data s) = 25"
    using assms by (simp_all add: buffer_ok_def sizeof_data_def)
  have q: "unat (drop_bit 4 (total_bits s + 1)) < 25"
    using shift4_lt [of "total_bits s + 1"] by simp
  show ?thesis
    using p q by (auto simp: gotBit_v2_def peek_def poke_def Let_def buffer_ok_def sizeof_data_def)
qed

lemma gotBit_virtual_buffer_ok:
  "buffer_ok s \<Longrightarrow> \<exists>s'. gotBit_virtual c v s = Some s' \<and> buffer_ok s'"
  by (cases c) (simp_all add: gotBit_buffer_ok gotBit_v2_buffer_ok)

lemma gotBit_seq_buffer_ok:
  "buffer_ok s \<Longrightarrow> \<exists>s'. gotBit_seq c vs s = Some s' \<and> buffer_ok s'"
proof (induction vs arbitrary: s)
  case Nil
  then show ?case by simp
next
  case (Cons v vs)
  from gotBit_virtual_buffer_ok [OF Cons.prems, of c v] obtain s1
    where s1: "gotBit_virtual c v s = Some s1" "buffer_ok s1" by blast
  from Cons.IH [OF s1(2)] s1(1) show ?case by simp
qed

lemma gotBit_overflow:
  assumes "buffer_ok s" "unat (pos s) = 24" "8 \<le> bits s + 1"
  shows "gotBit v s = Some (resetDecoder
           (s\<lparr>data := (data s)[24 := drop_bit 1 (data s ! 24) OR push_bit 7 v]\<rparr>))"
proof -
  have p: "unat (pos s) < length (data s)"
    using assms by (simp add: buffer_ok_def)
  have u: "unat (pos s + 1) = 25"
    using assms(2) by (simp add: unat_byte_Suc)
  show ?thesis
    using assms(2,3) u by (simp add: gotBit_eval [OF p] Let_def resetDecoder_def sizeof_data_def)
qed

lemma gotBit_no_overflow:
  assumes "buffer_ok s" "\<not> (unat (pos s) = 24 \<and> 8 \<le> bits s + 1)"
  shows "\<exists>s'. gotBit v s = Some s' \<and> state s' = OK \<and> total_bits s' = total_bits s + 1 \<and> flip s' = flip s"
proof -
  have p: "unat (pos s) < length (data s)" "unat (pos s) < 25"
    using assms by (simp_all add: buffer_ok_def sizeof_data_def)
  then have u: "unat (pos s + 1) = unat (pos s) + 1"
    by (simp add: unat_byte_Suc)
  show ?thesis
    using assms(2) p u by (auto simp: gotBit_eval [OF p(1)] Let_def sizeof_data_def)
qed

section \<open>Channels\<close>

lemma f0_eq: "(0xf0 :: 8 word) = push_bit 4 (mask 4)"
  by (simp add: mask_eq_exp_minus_1 push_bit_eq_mult)

lemma drop4_and_f0: "drop_bit 4 ((d :: 8 word) AND 0xf0) = drop_bit 4 d"
  unfolding f0_eq by (rule bit_eqI) (auto simp: bit_simps dest: bit_imp_le_length)

lemma hi_nibble_and: "drop_bit 4 (d :: 8 word) AND 0x0f = drop_bit 4 d"
  unfolding f8 by (rule bit_eqI) (auto simp: bit_simps dest: bit_imp_le_length)

lemma hi_nibble_eq:
  "(drop_bit 4 (d :: 8 word) = numeral k) \<longleftrightarrow> unat d div 16 = unat (numeral k :: 8 word)"
  by (simp only: word_unat_eq_iff unat_shift4)

lemma hi_nibble_eq0: "(drop_bit 4 (d :: 8 word) = 0) \<longleftrightarrow> unat d div 16 = 0"
  by (simp only: word_unat_eq_iff unat_shift4 unsigned_0)

lemma getChannel_v1_eval:
  "getChannel_v1 (d0 # rest) =
     Some (if unat d0 div 16 = 0 \<or> unat d0 div 16 = 2 then 1
           else if unat d0 div 16 = 4 then 2
           else if unat d0 div 16 = 8 then 3
           else 0)"
  by (simp add: getChannel_v1_def peek_Cons hi_nibble_and hi_nibble_eq hi_nibble_eq0 Let_def)

lemma getChannel_v2_eval:
  "getChannel_v2 (d0 # d1 # d2 # rest) =
     (if unat d2 div 16 = 0 then None
      else Some (word_of_int (push_bit (unat d2 div 16 - 1) 1)))"
proof -
  have "uint (drop_bit 4 d2) = int (unat d2 div 16)"
    unfolding uint_nat unat_shift4 by (rule refl)
  then show ?thesis
    by (auto simp add: getChannel_v2_def peek_Cons drop4_and_f0 hi_nibble_and Let_def nat_diff_distrib)
qed

section \<open>Manchester decoding\<close>

lemma bit_shift_in:
  "bit (drop_bit 1 (d :: 8 word) OR push_bit 7 (of_bool b)) i \<longleftrightarrow> (i < 7 \<and> bit d (Suc i)) \<or> (i = 7 \<and> b)"
  by (auto simp: bit_simps dest: bit_imp_le_length)

lemma map_shift_in:
  assumes "k \<le> 7"
  shows "map (bit (drop_bit 1 (d :: 8 word) OR push_bit 7 (of_bool b))) [7 - k..<8]
         = map (bit d) [8 - k..<8] @ [b]"
proof -
  have "[7 - k..<Suc 7] = [7 - k..<7] @ [7]"
    by (rule upt_Suc_append) simp
  then have "[7 - k..<8] = [7 - k..<7] @ [7]"
    by (simp add: eval_nat_numeral)
  moreover have "map (bit (drop_bit 1 d OR push_bit 7 (of_bool b))) [7 - k..<7] = map (\<lambda>i. bit d (Suc i)) [7 - k..<7]"
  proof (rule map_cong)
    show "[7 - k..<7] = [7 - k..<7]"
      by (rule refl)
  next
    fix x
    assume "x \<in> set [7 - k..<7]"
    then have "x < 7"
      by simp
    then show "bit (drop_bit 1 d OR push_bit 7 (of_bool b)) x = bit d (Suc x)"
      unfolding bit_shift_in by simp
  qed
  moreover have "map (\<lambda>i. bit d (Suc i)) [7 - k..<7] = map (bit d) [8 - k..<8]"
  proof -
    have "map (\<lambda>i. bit d (Suc i)) [7 - k..<7] = map (bit d) (map Suc [7 - k..<7])"
      by (simp add: comp_def)
    also have "map Suc [7 - k..<7] = [Suc (7 - k)..<Suc 7]"
      by (rule map_Suc_upt)
    also have "Suc (7 - k) = 8 - k"
      using assms by simp
    also have "Suc 7 = 8"
      by simp
    finally show ?thesis .
  qed
  moreover have "bit (drop_bit 1 d OR push_bit 7 (of_bool b)) 7 = b"
    unfolding bit_shift_in by simp
  ultimately show ?thesis
    by (simp only: map_append list.map)
qed


lemma gotBit_append:
  assumes ok: "buffer_ok s" and b8: "unat (bits s) < 8"
    and room: "8 * unat (pos s) + unat (bits s) + 1 < 200"
  shows "\<exists>s'. gotBit (of_bool b) s = Some s'
           \<and> buffer_bits s' = buffer_bits s @ [b]
           \<and> buffer_ok s' \<and> unat (bits s') < 8
           \<and> 8 * unat (pos s') + unat (bits s') = 8 * unat (pos s) + unat (bits s) + 1
           \<and> state s' = OK \<and> flip s' = flip s"
proof -
  let ?p = "unat (pos s)"
  let ?d = "data s ! ?p"
  let ?n = "drop_bit 1 ?d OR push_bit 7 (of_bool b)"
  have p: "?p < length (data s)" "?p < 25" "length (data s) = 25"
    using ok by (simp_all add: buffer_ok_def sizeof_data_def)
  have up: "unat (pos s + 1) = ?p + 1"
    using p by (simp add: unat_byte_Suc)
  have ub: "unat (bits s + 1) = unat (bits s) + 1"
    using b8 by (simp add: unat_byte_Suc)
  have le8: "8 \<le> bits s + 1 \<longleftrightarrow> unat (bits s) = 7"
    using b8 by (auto simp: word_le_nat_alt ub)
  show ?thesis
  proof (cases "unat (bits s) = 7")
    case True
    then have np: "?p < 24"
      using room by simp
    let ?s' = "s\<lparr>total_bits := total_bits s + 1, data := (data s)[?p := ?n], bits := 0, pos := pos s + 1, state := OK\<rparr>"
    have g: "gotBit (of_bool b) s = Some ?s'"
      using True np up le8 by (simp add: gotBit_eval[OF p(1)] Let_def sizeof_data_def)
    have t: "take (Suc ?p) ((data s)[?p := ?n]) = take ?p (data s) @ [?n]"
      using p(1) by (simp add: take_Suc_conv_app_nth)
    have "byte_bits ?n = map (bit ?d) [1..<8] @ [b]"
      using map_shift_in[of 7 ?d b] by (simp add: byte_bits_def)
    then have "buffer_bits ?s' = buffer_bits s @ [b]"
      using True up t by (simp add: buffer_bits_def)
    then show ?thesis
      using g True up np p by (auto simp: buffer_ok_def sizeof_data_def)
  next
    case False
    then have k: "unat (bits s) \<le> 6"
      using b8 by simp
    let ?s' = "s\<lparr>total_bits := total_bits s + 1, data := (data s)[?p := ?n], bits := bits s + 1, state := OK\<rparr>"
    have g: "gotBit (of_bool b) s = Some ?s'"
      using False le8 by (simp add: gotBit_eval[OF p(1)] Let_def)
    have m: "map (bit ?n) [7 - unat (bits s)..<8] = map (bit ?d) [8 - unat (bits s)..<8] @ [b]"
      using k by (intro map_shift_in) simp
    have "buffer_bits ?s' = buffer_bits s @ [b]"
      using p(1) m ub by (simp add: buffer_bits_def)
    then show ?thesis
      using g False ub k p ok by (auto simp: buffer_ok_def sizeof_data_def)
  qed
qed


lemma decode_seq_append:
  "decode_seq c (ws1 @ ws2) s = do {
     (rs1, s1) \<leftarrow> decode_seq c ws1 s;
     (rs2, s2) \<leftarrow> decode_seq c ws2 s1;
     Some (rs1 @ rs2, s2)
   }"
proof (induction ws1 arbitrary: s)
  case Nil
  then show ?case by (simp split: option.splits prod.splits bind_splits)
next
  case (Cons w ws1)
  show ?case
  proof (cases "decode_virtual c w s")
    case None
    then show ?thesis by simp
  next
    case (Some a)
    obtain r s1 where a: "a = (r, s1)" by (cases a)
    show ?thesis
      using Some a Cons.IH[of s1]
      by (simp split: option.splits prod.splits bind_splits)
  qed
qed

lemma short_v1:
  assumes "900 \<le> (w :: word16)" "w < 2300"
  shows "900 \<le> w \<and> w \<le> 7000" "\<not> 2300 \<le> w"
  using assms by (simp_all add: word_le_nat_alt word_less_nat_alt)

lemma long_v1:
  assumes "2300 \<le> (w :: word16)" "w \<le> 7000"
  shows "900 \<le> w \<and> w \<le> 7000"
  using assms by (simp_all add: word_le_nat_alt word_less_nat_alt)

lemma fin_v1_code: "fin_v1 s = Some (r, s') \<Longrightarrow> r \<noteq> -1 \<and> s' = s"
  by (auto simp: fin_v1_def split: if_splits)

lemma decode_v1_pair:
  assumes st: "state s = OK" and fl: "flip s = of_bool prev"
    and ok: "buffer_ok s" and b8: "unat (bits s) < 8"
    and room: "8 * unat (pos s) + unat (bits s) + 1 < 200"
    and sw: "900 \<le> short" "short < 2300"
  shows "\<exists>rs s'. decode_seq OregonDecoder_v1 [short, short] s = Some (rs, s')
           \<and> -1 \<notin> set rs
           \<and> buffer_bits s' = buffer_bits s @ [prev]
           \<and> buffer_ok s' \<and> unat (bits s') < 8
           \<and> 8 * unat (pos s') + unat (bits s') = 8 * unat (pos s) + unat (bits s) + 1
           \<and> state s' = OK \<and> flip s' = of_bool prev"
proof -
  let ?t = "s\<lparr>state := T0\<rparr>"
  let ?u = "s\<lparr>state := T0, flip := of_bool prev\<rparr>"
  have 1: "decode_v1 short s = fin_v1 ?t"
    using st short_v1[OF sw] by (simp add: decode_v1_def)
  have oku: "buffer_ok ?u" "unat (bits ?u) < 8" "8 * unat (pos ?u) + unat (bits ?u) + 1 < 200"
    using ok b8 room by (simp_all add: buffer_ok_def)
  from gotBit_append[OF oku, of prev] obtain s' where s':
    "gotBit (of_bool prev) ?u = Some s'"
    "buffer_bits s' = buffer_bits ?u @ [prev]"
    "buffer_ok s'" "unat (bits s') < 8"
    "8 * unat (pos s') + unat (bits s') = 8 * unat (pos ?u) + unat (bits ?u) + 1"
    "state s' = OK" "flip s' = flip ?u"
    by blast
  have 2: "decode_v1 short ?t = fin_v1 s'"
    using short_v1[OF sw] fl s'(1) by (simp add: decode_v1_def manchester_def)
  have bb: "buffer_bits ?u = buffer_bits s"
    by (simp add: buffer_bits_def)
  show ?thesis
    using 1 2 s' bb by (simp add: fin_v1_def)
qed

lemma xor1_of_bool: "(of_bool p :: byte) XOR 1 = of_bool (\<not> p)"
  by (cases p) simp_all

lemma decode_v1_long:
  assumes st: "state s = OK" and fl: "flip s = of_bool prev"
    and ok: "buffer_ok s" and b8: "unat (bits s) < 8"
    and room: "8 * unat (pos s) + unat (bits s) + 1 < 200"
    and lw: "2300 \<le> long" "long \<le> 7000"
  shows "\<exists>rs s'. decode_seq OregonDecoder_v1 [long] s = Some (rs, s')
           \<and> -1 \<notin> set rs
           \<and> buffer_bits s' = buffer_bits s @ [\<not> prev]
           \<and> buffer_ok s' \<and> unat (bits s') < 8
           \<and> 8 * unat (pos s') + unat (bits s') = 8 * unat (pos s) + unat (bits s) + 1
           \<and> state s' = OK \<and> flip s' = of_bool (\<not> prev)"
proof -
  let ?t = "s\<lparr>flip := of_bool (\<not> prev)\<rparr>"
  have okt: "buffer_ok ?t" "unat (bits ?t) < 8" "8 * unat (pos ?t) + unat (bits ?t) + 1 < 200"
    using ok b8 room by (simp_all add: buffer_ok_def)
  from gotBit_append[OF okt, of "\<not> prev"] obtain s' where s':
    "gotBit (of_bool (\<not> prev)) ?t = Some s'"
    "buffer_bits s' = buffer_bits ?t @ [\<not> prev]"
    "buffer_ok s'" "unat (bits s') < 8"
    "8 * unat (pos s') + unat (bits s') = 8 * unat (pos ?t) + unat (bits ?t) + 1"
    "state s' = OK" "flip s' = flip ?t"
    by blast
  have 1: "decode_v1 long s = fin_v1 s'"
    using st long_v1[OF lw] lw(1) fl s'(1) by (simp add: decode_v1_def manchester_def xor1_of_bool)
  have bb: "buffer_bits ?t = buffer_bits s"
    by (simp add: buffer_bits_def)
  show ?thesis
    using 1 s' bb by (simp add: fin_v1_def)
qed


lemma replicate_update_same: "(replicate n x)[i := x] = replicate n x"
  by (metis length_replicate list_update_beyond list_update_id not_le_imp_less nth_replicate)

lemma cex_v1_a: "decode_v1 1500 full199 = Some (1, full199\<lparr>state := T0\<rparr>)"
  by (simp add: full199_def decode_v1_def fin_v1_def)

lemma cex_v1_b: "decode_v1 1500 (full199\<lparr>state := T0\<rparr>) = Some (0, resetDecoder full199)"
  by (simp add: full199_def decode_v1_def fin_v1_def manchester_def gotBit_def peek_def poke_def
      sizeof_data_def Let_def resetDecoder_def replicate_update_same)

lemma cex_v2_a: "decode_v2 1000 v2_after_sync = Some (0, v2_after_sync\<lparr>total_bits := 2, flip := 1\<rparr>)"
  by (simp add: v2_after_sync_def decode_v2_def manchester_def gotBit_v2_def peek_def poke_def
      sizeof_data_def Let_def)

lemma cex_v2_b: "decode_v2 500 (v2_after_sync\<lparr>total_bits := 2, flip := 1\<rparr>)
    = Some (0, v2_after_sync\<lparr>total_bits := 2, flip := 1, state := T0\<rparr>)"
  by (simp add: v2_after_sync_def decode_v2_def)

lemma cex_v2_c: "decode_v2 500 (v2_after_sync\<lparr>total_bits := 2, flip := 1, state := T0\<rparr>)
    = Some (0, v2_after_sync\<lparr>total_bits := 3, flip := 1, data := (replicate 25 0)[0 := 0x80]\<rparr>)"
  by (simp add: v2_after_sync_def decode_v2_def manchester_def gotBit_v2_def peek_def poke_def
      sizeof_data_def Let_def)

section \<open>The decoders and the dispatcher\<close>

lemma done_loop_0: "bits s = 0 \<Longrightarrow> done_loop c s = Some s"
  by (subst done_loop.simps) simp

lemma done_loop_step: "bits s \<noteq> 0 \<Longrightarrow> done_loop c s = Option.bind (gotBit_virtual c 0 s) (done_loop c)"
  by (subst done_loop.simps) simp

lemma gotBit_bits:
  assumes "buffer_ok s" "unat (bits s) < 8"
  shows "\<exists>s1. gotBit v s = Some s1 \<and> buffer_ok s1
           \<and> (bits s1 = 0 \<or> unat (bits s1) = unat (bits s) + 1 \<and> unat (bits s1) < 8)"
proof -
  have p: "unat (pos s) < length (data s)" "unat (pos s) < 25" "length (data s) = 25"
    using assms by (simp_all add: buffer_ok_def sizeof_data_def)
  have up: "unat (pos s + 1) = unat (pos s) + 1"
    using p by (simp add: unat_byte_Suc)
  have ub: "unat (bits s + 1) = unat (bits s) + 1"
    using assms(2) by (simp add: unat_byte_Suc)
  have le8: "8 \<le> bits s + 1 \<longleftrightarrow> unat (bits s) = 7"
    using assms(2) by (auto simp: word_le_nat_alt ub)
  show ?thesis
    using p up ub le8 assms(2)
    by (auto simp: gotBit_eval [OF p(1)] Let_def buffer_ok_def resetDecoder_def sizeof_data_def)
qed

lemma gotBit_decoder_ok:
  "decoder_ok OregonDecoder_v1 s \<Longrightarrow> \<exists>s1. gotBit v s = Some s1 \<and> decoder_ok OregonDecoder_v1 s1"
  using gotBit_bits [of s v] by (auto simp: decoder_ok_def)

lemma gotBit_v2_decoder_ok:
  assumes "decoder_ok OregonDecoder_v2 s"
  shows "\<exists>s1. gotBit_v2 v s = Some s1 \<and> decoder_ok OregonDecoder_v2 s1"
proof -
  have p: "unat (pos s) < length (data s)" "length (data s) = 25" "bits s = 0"
    using assms by (simp_all add: decoder_ok_def buffer_ok_def sizeof_data_def)
  have q: "unat (drop_bit 4 (total_bits s + 1)) < 25"
    using shift4_lt [of "total_bits s + 1"] by simp
  show ?thesis
    using p q
    by (auto simp: gotBit_v2_def peek_def poke_def Let_def decoder_ok_def buffer_ok_def sizeof_data_def)
qed

lemma gotBit_virtual_decoder_ok:
  "decoder_ok c s \<Longrightarrow> \<exists>s1. gotBit_virtual c v s = Some s1 \<and> decoder_ok c s1"
  by (cases c) (simp_all add: gotBit_decoder_ok gotBit_v2_decoder_ok)

lemma decoder_ok_update [simp]:
  "decoder_ok c (s\<lparr>flip := f\<rparr>) = decoder_ok c s"
  "decoder_ok c (s\<lparr>state := st\<rparr>) = decoder_ok c s"
  by (cases c; simp add: decoder_ok_def buffer_ok_def)+

lemma manchester_decoder_ok:
  "decoder_ok c s \<Longrightarrow> \<exists>s1. manchester c v s = Some s1 \<and> decoder_ok c s1"
  by (simp add: manchester_def Let_def gotBit_virtual_decoder_ok)

lemma resetDecoder_decoder_ok: "decoder_ok c s \<Longrightarrow> decoder_ok c (resetDecoder s)"
  by (cases c) (simp_all add: decoder_ok_def buffer_ok_def resetDecoder_def sizeof_data_def)

lemma done_loop_v1:
  "decoder_ok OregonDecoder_v1 s \<Longrightarrow>
     \<exists>s'. done_loop OregonDecoder_v1 s = Some s' \<and> decoder_ok OregonDecoder_v1 s' \<and> bits s' = 0"
proof (induction "8 - unat (bits s)" arbitrary: s rule: less_induct)
  case less
  show ?case
  proof (cases "bits s = 0")
    case True
    then show ?thesis
      using less.prems by (simp add: done_loop_0)
  next
    case False
    have b: "buffer_ok s" "unat (bits s) < 8"
      using less.prems by (simp_all add: decoder_ok_def)
    from gotBit_bits [OF b, of 0] obtain s1 where s1:
      "gotBit 0 s = Some s1" "buffer_ok s1"
      "bits s1 = 0 \<or> unat (bits s1) = unat (bits s) + 1 \<and> unat (bits s1) < 8"
      by blast
    have ok1: "decoder_ok OregonDecoder_v1 s1"
      using s1(2,3) by (auto simp: decoder_ok_def)
    have step: "done_loop OregonDecoder_v1 s = done_loop OregonDecoder_v1 s1"
      using False s1(1) by (simp add: done_loop_step)
    show ?thesis
    proof (cases "bits s1 = 0")
      case True
      then show ?thesis
        using step ok1 by (simp add: done_loop_0)
    next
      case False
      then have "8 - unat (bits s1) < 8 - unat (bits s)"
        using s1(3) by auto
      from less.hyps [OF this ok1] show ?thesis
        using step by simp
    qed
  qed
qed

lemma done_decoder_ok:
  assumes "decoder_ok c s"
  shows "\<exists>s'. done_decoder c s = Some s' \<and> decoder_ok c s' \<and> state s' = DONE"
proof (cases c)
  case OregonDecoder_v1
  with done_loop_v1 [of s] assms show ?thesis
    by (auto simp: done_decoder_def)
next
  case OregonDecoder_v2
  with assms have "bits s = 0"
    by (simp add: decoder_ok_def)
  then show ?thesis
    using assms by (simp add: done_decoder_def done_loop_0)
qed


lemma decode_v1_ok:
  assumes "decoder_ok OregonDecoder_v1 s"
  shows "\<exists>r s1. decode_v1 w s = Some (r, s1) \<and> decoder_ok OregonDecoder_v1 s1
           \<and> (r = -1 \<or> r = 0 \<or> r = 1) \<and> (r = -1 \<longrightarrow> s1 = s)"
proof -
  from manchester_decoder_ok [OF assms, of 1] obtain m1 where m1:
    "manchester OregonDecoder_v1 1 s = Some m1" "decoder_ok OregonDecoder_v1 m1" by blast
  from manchester_decoder_ok [OF assms, of 0] obtain m0 where m0:
    "manchester OregonDecoder_v1 0 s = Some m0" "decoder_ok OregonDecoder_v1 m0" by blast
  from gotBit_decoder_ok [OF assms, of 0] obtain g0 where g0:
    "gotBit 0 s = Some g0" "decoder_ok OregonDecoder_v1 g0" by blast
  show ?thesis
    using assms m1 m0 g0
    by (cases "state s") (simp_all add: decode_v1_def fin_v1_def Let_def)
qed

lemma decode_v2_ok:
  assumes "decoder_ok OregonDecoder_v2 s"
  shows "\<exists>r s1. decode_v2 w s = Some (r, s1) \<and> decoder_ok OregonDecoder_v2 s1
           \<and> (r = -1 \<or> r = 0 \<or> r = 1) \<and> (r = -1 \<longrightarrow> s1 = s)"
proof -
  from manchester_decoder_ok [OF assms, of 1] obtain m1 where m1:
    "manchester OregonDecoder_v2 1 s = Some m1" "decoder_ok OregonDecoder_v2 m1" by blast
  from manchester_decoder_ok [OF assms, of 0] obtain m0 where m0:
    "manchester OregonDecoder_v2 0 s = Some m0" "decoder_ok OregonDecoder_v2 m0" by blast
  show ?thesis
    using assms m1 m0
    by (cases "state s") (simp_all add: decode_v2_def Let_def)
qed

lemma decode_virtual_ok:
  "decoder_ok c s \<Longrightarrow> \<exists>r s1. decode_virtual c w s = Some (r, s1) \<and> decoder_ok c s1
           \<and> (r = -1 \<or> r = 0 \<or> r = 1) \<and> (r = -1 \<longrightarrow> s1 = s)"
  by (cases c) (simp_all add: decode_v1_ok decode_v2_ok)

lemma nextPulse_ok:
  assumes "decoder_ok c s"
  shows "\<exists>s'. nextPulse c w s = Some (state s' = DONE, s') \<and> decoder_ok c s'"
proof (cases "state s = DONE")
  case True
  then show ?thesis
    using assms by (simp add: nextPulse_def isDone_def)
next
  case False
  from decode_virtual_ok [OF assms, of w] obtain r s1 where d:
    "decode_virtual c w s = Some (r, s1)" "decoder_ok c s1" by blast
  from done_decoder_ok [OF d(2)] obtain s2 where s2:
    "done_decoder c s1 = Some s2" "decoder_ok c s2" "state s2 = DONE" by blast
  show ?thesis
    using False d s2 resetDecoder_decoder_ok [OF d(2)]
    by (simp add: nextPulse_def isDone_def)
qed

lemma nextPulse_failure:
  assumes "state s \<noteq> DONE" "decode_virtual c w s = Some (-1, s1)"
  shows "nextPulse c w s = Some (False, resetDecoder s1)"
  using assms by (simp add: nextPulse_def isDone_def resetDecoder_def)

lemma list9:
  assumes "9 \<le> length (dat :: 'a list)"
  shows "\<exists>d0 d1 d2 d3 d4 d5 d6 d7 d8 rest. dat = d0 # d1 # d2 # d3 # d4 # d5 # d6 # d7 # d8 # rest"
proof -
  have "Suc (Suc (Suc (Suc (Suc (Suc (Suc (Suc (Suc 0)))))))) \<le> length dat"
    using assms by simp
  then show ?thesis
    by (auto simp: Suc_le_length_iff)
qed

lemma validateChecksum_ok:
  assumes "9 \<le> length dat"
  shows "\<exists>valid. validateChecksum c dat = Some valid"
proof -
  from list9 [OF assms] obtain d0 d1 d2 d3 d4 d5 d6 d7 d8 rest
    where "dat = d0 # d1 # d2 # d3 # d4 # d5 # d6 # d7 # d8 # rest" by blast
  then show ?thesis
    by (cases c) (simp_all add: validateChecksum_v1_eval validateChecksum_v2_eval)
qed


lemma decoder_ok_length: "decoder_ok c s \<Longrightarrow> length (data s) = 25"
  by (simp add: decoder_ok_def buffer_ok_def sizeof_data_def)

lemma loop_body_after:
  assumes "device_ok d"
  shows "loop_body cb p kk d = Some (device_after_pulse p d, expected_calls cb p kk d)
         \<and> device_ok (device_after_pulse p d)
         \<and> dclass (device_after_pulse p d) = dclass d
         \<and> state (dDecoder (device_after_pulse p d)) \<noteq> DONE"
proof -
  let ?c = "decoder_of (dclass d)"
  from assms have ok: "decoder_ok ?c (dDecoder d)"
    by (simp add: device_ok_def)
  from nextPulse_ok [OF ok, of p] obtain s' where s':
    "nextPulse ?c p (dDecoder d) = Some (state s' = DONE, s')" "decoder_ok ?c s'" by blast
  have np: "Device_nextPulse p d = Some (state s' = DONE, d\<lparr>dDecoder := s'\<rparr>)"
    using s'(1) by (simp add: Device_nextPulse_def)
  have len: "9 \<le> length (data s')"
    using decoder_ok_length [OF s'(2)] by simp
  from validateChecksum_ok [OF len, of "dclass d"] obtain valid where v:
    "validateChecksum (dclass d) (data s') = Some valid" by blast
  have r: "decoder_ok ?c (resetDecoder s')"
    using s'(2) by (rule resetDecoder_decoder_ok)
  have rd: "data (resetDecoder s') = data s'" "state (resetDecoder s') = UNKNOWN"
    by (simp_all add: resetDecoder_def)
  show ?thesis
    using np v r rd s'(2)
    by (auto simp: loop_body_def expected_calls_def device_after_pulse_def dataToDecoder_def
          getData_def device_ok_def Let_def)
qed

lemma loop_devices_after:
  assumes "list_all device_ok ds"
  shows "loop_devices cb p kk ds
           = Some (map (device_after_pulse p) ds,
                   concat (map (\<lambda>(i, d). expected_calls cb p i d) (enumerate kk ds)))
         \<and> list_all device_ok (map (device_after_pulse p) ds)
         \<and> list_all (\<lambda>d. state (dDecoder d) \<noteq> DONE) (map (device_after_pulse p) ds)"
  using assms
proof (induction ds arbitrary: kk)
  case Nil
  then show ?case by simp
next
  case (Cons d ds)
  from Cons.prems have d: "device_ok d" and ds: "list_all device_ok ds"
    by simp_all
  show ?case
    using loop_body_after [OF d, of cb p kk] Cons.IH [OF ds, of "kk + 1"] by simp
qed

lemma loop_after:
  assumes "pulse b \<noteq> 0" "list_all device_ok (devices b)"
  shows "loop b = Some (b\<lparr>pulse := 0, devices := map (device_after_pulse (pulse b)) (devices b)\<rparr>,
                        concat (map (\<lambda>(i, d). expected_calls (usrCallbackfunc b) (pulse b) i d)
                                    (enumerate 0 (devices b))))
         \<and> list_all device_ok (map (device_after_pulse (pulse b)) (devices b))
         \<and> list_all (\<lambda>d. state (dDecoder d) \<noteq> DONE) (map (device_after_pulse (pulse b)) (devices b))"
  using assms(1) loop_devices_after [OF assms(2), of "usrCallbackfunc b" "pulse b" 0]
  by (simp add: loop_def Let_def)

lemma reset_never_completes:
  "\<exists>s'. nextPulse c w (resetDecoder s) = Some (False, s')"
proof (cases c)
  case OregonDecoder_v1
  then show ?thesis
    by (simp add: nextPulse_def decode_v1_def fin_v1_def resetDecoder_def isDone_def Let_def)
next
  case OregonDecoder_v2
  then show ?thesis
    by (simp add: nextPulse_def decode_v2_def resetDecoder_def isDone_def Let_def)
qed

lemma expected_calls_after_reset:
  "expected_calls cb p kk (d\<lparr>dDecoder := resetDecoder s\<rparr>) = []"
  using reset_never_completes [of "decoder_of (dclass d)" p s]
  by (auto simp: expected_calls_def Device_nextPulse_def)

lemma device_after_pulse_completed:
  "Device_nextPulse p d = Some (True, d1) \<Longrightarrow>
     device_after_pulse p d = d1\<lparr>dDecoder := resetDecoder (dDecoder d1)\<rparr>"
  by (simp add: device_after_pulse_def)


lemma expected_calls_le1: "length (expected_calls cb p kk d) \<le> 1"
  by (simp add: expected_calls_def split: option.splits prod.splits)


lemma expected_calls_iff:
  "(kk, dat) \<in> set (expected_calls cb p kk' d) \<longleftrightarrow>
     cb \<and> kk = kk' \<and>
     (\<exists>d1. Device_nextPulse p d = Some (True, d1) \<and> dat = data (dDecoder d1)
           \<and> validateChecksum (dclass d) dat = Some True)"
proof (cases "Device_nextPulse p d")
  case None
  then show ?thesis
    by (simp add: expected_calls_def)
next
  case (Some a)
  obtain completed d1 where a: "a = (completed, d1)"
    by (cases a)
  show ?thesis
    using Some a by (cases completed) (auto simp: expected_calls_def)
qed

lemma v1_fresh_fails: "Device_nextPulse 3000 (new_Device OregonDevice_v1) = Some (False, new_Device OregonDevice_v1)"
  by (simp add: Device_nextPulse_def new_Device_def nextPulse_def decode_v1_def DecodeOOK_ctor_def
      resetDecoder_def zeroed_storage_def isDone_def)

lemma v2_completes:
  "Device_nextPulse 3000 \<lparr>dclass = OregonDevice_v2, dDecoder = v2_packet_received\<rparr>
     = Some (True, \<lparr>dclass = OregonDevice_v2, dDecoder = v2_packet_received\<lparr>state := DONE\<rparr>\<rparr>)"
  by (simp add: Device_nextPulse_def nextPulse_def decode_v2_def v2_packet_received_def
      done_decoder_def done_loop_0 isDone_def)

lemma device_ok_fresh: "device_ok (new_Device c)"
  by (cases c) (simp_all add: device_ok_def decoder_ok_def buffer_ok_def new_Device_def
      DecodeOOK_ctor_def resetDecoder_def zeroed_storage_def sizeof_data_def)

lemma device_ok_v2_packet: "device_ok \<lparr>dclass = OregonDevice_v2, dDecoder = v2_packet_received\<rparr>"
  by (simp add: device_ok_def decoder_ok_def buffer_ok_def v2_packet_received_def sizeof_data_def)

lemma buffer_bits_reset: "buffer_bits (resetDecoder s) = []"
  by (simp add: buffer_bits_def resetDecoder_def)

lemma reset_eq_ctor: "resetDecoder s = (DecodeOOK_ctor zeroed_storage)\<lparr>data := data s\<rparr>"
  by (simp add: DecodeOOK_ctor_def resetDecoder_def zeroed_storage_def)

lemma dataToDecoder_resets:
  "dDecoder (snd (dataToDecoder d1)) = resetDecoder (dDecoder d1)"
  by (simp add: dataToDecoder_def getData_def Let_def)

section \<open>The claims\<close>

text \<open>
  Claim C1. For every 10-byte v2.1 packet (the bytes \<open>d0 \<dots> d8\<close> followed by the rest of
  the buffer), the v2.1 \<open>validateChecksum\<close> returns true if and only if the identifier
  \<open>(data[0] << 8) | data[1]\<close> is 0xEA4C or 0x1A2D and the sum of the 16 nibbles of bytes
  0..7, minus 0x0A, taken modulo 256, equals \<open>data[8]\<close>. The position lookup yields 16 for
  the two known identifiers and 0 (validation fails at once) for any other. For the packet
  1A 2D 20 8B 58 21 40 C7 4C 8C validation succeeds and the lookup yields 16.
\<close>

theorem C1_validateChecksum_v2:
  "validateChecksum_v2 (d0 # d1 # d2 # d3 # d4 # d5 # d6 # d7 # d8 # rest) =
     Some ((unat d0 * 256 + unat d1 = 0xEA4C \<or> unat d0 * 256 + unat d1 = 0x1A2D) \<and>
           (int (\<Sum>d\<leftarrow>[d0, d1, d2, d3, d4, d5, d6, d7]. unat d div 16 + unat d mod 16) - 0x0A)
             mod 256 = int (unat d8))
   \<and> getChecksumPos (d0 # d1 # rest) =
       Some (if unat d0 * 256 + unat d1 = 0xEA4C \<or> unat d0 * 256 + unat d1 = 0x1A2D then 16 else 0)
   \<and> validateChecksum_v2 [0x1A, 0x2D, 0x20, 0x8B, 0x58, 0x21, 0x40, 0xC7, 0x4C, 0x8C] = Some True
   \<and> getChecksumPos [0x1A, 0x2D, 0x20, 0x8B, 0x58, 0x21, 0x40, 0xC7, 0x4C, 0x8C] = Some 16"
proof -
  have "validateChecksum_v2 [0x1A, 0x2D, 0x20, 0x8B, 0x58, 0x21, 0x40, 0xC7, 0x4C, 0x8C] = Some True"
    by (simp add: validateChecksum_v2_eval)
  moreover have "getChecksumPos [0x1A, 0x2D, 0x20, 0x8B, 0x58, 0x21, 0x40, 0xC7, 0x4C, 0x8C] = Some 16"
    by (simp add: getChecksumPos_eval)
  ultimately show ?thesis
    using validateChecksum_v2_eval [of d0 d1 d2 d3 d4 d5 d6 d7 d8 rest] getChecksumPos_eval [of d0 d1 rest]
    by blast
qed

text \<open>
  Claim C4. For every 4-byte v1 packet (the bytes \<open>d0 \<dots> d3\<close>, followed by the rest of
  the buffer), the v1 \<open>validateChecksum\<close> returns true if and only if
  \<open>(data[0] + data[1] + data[2]) mod 256 = data[3]\<close>; it returns true for 44 53 02 99.
\<close>

theorem C4_validateChecksum_v1:
  "validateChecksum_v1 (d0 # d1 # d2 # d3 # rest)
     = Some ((unat d0 + unat d1 + unat d2) mod 256 = unat d3)
   \<and> validateChecksum_v1 [0x44, 0x53, 0x02, 0x99] = Some True"
  by (simp add: validateChecksum_v1_eval)

text \<open>
  Claim C5. For the v2.1 packet 1A 2D 20 8B 58 21 40 C7 4C 8C the field extractors of the
  v2.1 device return: model "THGR228N", temperature +21.5, humidity 74, battery good
  (true) and channel 2.
\<close>

theorem C5_v2_packet_fields:
  "getRemoteModel_v2 [0x1A, 0x2D, 0x20, 0x8B, 0x58, 0x21, 0x40, 0xC7, 0x4C, 0x8C] = Some ''THGR228N''
   \<and> getTemperature_v2 [0x1A, 0x2D, 0x20, 0x8B, 0x58, 0x21, 0x40, 0xC7, 0x4C, 0x8C] = Some 21.5
   \<and> getHumidity_v2 [0x1A, 0x2D, 0x20, 0x8B, 0x58, 0x21, 0x40, 0xC7, 0x4C, 0x8C] = Some 74
   \<and> getBattery_v2 [0x1A, 0x2D, 0x20, 0x8B, 0x58, 0x21, 0x40, 0xC7, 0x4C, 0x8C] = Some True
   \<and> getChannel_v2 [0x1A, 0x2D, 0x20, 0x8B, 0x58, 0x21, 0x40, 0xC7, 0x4C, 0x8C] = Some 2"
  by (simp add: getRemoteModel_v2_def remote_identifier_def getTemperature_v2_def
        getHumidity_v2_def getBattery_v2_def getChannel_v2_def peek_Cons)

text \<open>
  Claim C2, as stated: for every bit sequence and every classifier in state \<open>OK\<close> whose
  flip accumulator is the last emitted bit, feeding the Manchester encoding to \<open>decode\<close>
  appends exactly the sequence to the buffer. It fails in two ways. A v1 decoder that
  holds 199 bits and is fed the encoding of one more bit (two short pulses) resets: the
  buffer is empty afterwards. A v2.1 decoder that has just synchronised and is fed the
  encoding of the two bits 1, 1 shifts only one bit into the buffer (the first byte is
  0x80; two stored 1 bits would make it 0xC0), because its \<open>gotBit\<close> drops every other
  bit.
\<close>

theorem C2_round_trip_counterexample:
  "state full199 = OK \<and> flip full199 = of_bool False
   \<and> decode_seq OregonDecoder_v1 (manchester_encode 1500 3000 False [False]) full199
       = Some ([1, 0], resetDecoder full199)
   \<and> buffer_bits (resetDecoder full199) = []
   \<and> buffer_bits (resetDecoder full199) \<noteq> buffer_bits full199 @ [False]
   \<and> state v2_after_sync = OK \<and> flip v2_after_sync = of_bool False
   \<and> decode_seq OregonDecoder_v2 (manchester_encode 500 1000 False [True, True]) v2_after_sync
       = Some ([0, 0, 0], v2_after_sync\<lparr>total_bits := 3, flip := 1, data := (replicate 25 0)[0 := 0x80]\<rparr>)"
proof -
  have 1: "state full199 = OK \<and> flip full199 = of_bool False"
    by (simp add: full199_def)
  have 2: "decode_seq OregonDecoder_v1 (manchester_encode 1500 3000 False [False]) full199
       = Some ([1, 0], resetDecoder full199)"
    by (simp add: cex_v1_a cex_v1_b)
  have 3: "buffer_bits (resetDecoder full199) = []"
    by (simp add: buffer_bits_def resetDecoder_def)
  have 4: "state v2_after_sync = OK \<and> flip v2_after_sync = of_bool False"
    by (simp add: v2_after_sync_def)
  have 5: "decode_seq OregonDecoder_v2 (manchester_encode 500 1000 False [True, True]) v2_after_sync
       = Some ([0, 0, 0], v2_after_sync\<lparr>total_bits := 3, flip := 1, data := (replicate 25 0)[0 := 0x80]\<rparr>)"
    by (simp add: cex_v2_a cex_v2_b cex_v2_c)
  show ?thesis
    using 1 2 3 4 5 by simp
qed

text \<open>
  Claim C2, amended. For the v1 classifier in state \<open>OK\<close> whose flip accumulator is the
  last emitted bit, and every bit sequence that fits the buffer (the bits held plus the
  bits of the sequence are fewer than 200), feeding the Manchester encoding of the
  sequence (short pulses of a width in [900, 2300), long pulses of a width in
  [2300, 7000]) to \<open>decode\<close> never fails and appends exactly the sequence to the buffer;
  the classifier is again in state \<open>OK\<close> and its flip accumulator is the last bit.
\<close>

theorem C2_round_trip_amended:
  assumes st: "state s = OK" and fl: "flip s = of_bool prev"
    and ok: "buffer_ok s" and b8: "unat (bits s) < 8"
    and room: "8 * unat (pos s) + unat (bits s) + length bs < 200"
    and sw: "900 \<le> short" "short < 2300"
    and lw: "2300 \<le> long" "long \<le> 7000"
  shows "\<exists>rs s'. decode_seq OregonDecoder_v1 (manchester_encode short long prev bs) s = Some (rs, s')
           \<and> -1 \<notin> set rs
           \<and> buffer_bits s' = buffer_bits s @ bs
           \<and> state s' = OK \<and> flip s' = of_bool (last (prev # bs))"
  using st fl ok b8 room
proof (induction bs arbitrary: s prev)
  case Nil
  then show ?case by simp
next
  case (Cons b bs)
  have room1: "8 * unat (pos s) + unat (bits s) + 1 < 200"
    using Cons.prems(5) by simp
  have "\<exists>rs1 s1. decode_seq OregonDecoder_v1 (if b = prev then [short, short] else [long]) s = Some (rs1, s1)
           \<and> -1 \<notin> set rs1
           \<and> buffer_bits s1 = buffer_bits s @ [b]
           \<and> buffer_ok s1 \<and> unat (bits s1) < 8
           \<and> 8 * unat (pos s1) + unat (bits s1) = 8 * unat (pos s) + unat (bits s) + 1
           \<and> state s1 = OK \<and> flip s1 = of_bool b"
  proof (cases "b = prev")
    case True
    then show ?thesis
      using decode_v1_pair[OF Cons.prems(1,2,3,4) room1 sw] by simp
  next
    case False
    then have "b = (\<not> prev)" by auto
    then show ?thesis
      using decode_v1_long[OF Cons.prems(1,2,3,4) room1 lw] False by simp
  qed
  then obtain rs1 s1 where s1:
    "decode_seq OregonDecoder_v1 (if b = prev then [short, short] else [long]) s = Some (rs1, s1)"
    "-1 \<notin> set rs1" "buffer_bits s1 = buffer_bits s @ [b]"
    "buffer_ok s1" "unat (bits s1) < 8"
    "8 * unat (pos s1) + unat (bits s1) = 8 * unat (pos s) + unat (bits s) + 1"
    "state s1 = OK" "flip s1 = of_bool b"
    by blast
  have room': "8 * unat (pos s1) + unat (bits s1) + length bs < 200"
    using s1(6) Cons.prems(5) by simp
  from Cons.IH[OF s1(7) s1(8) s1(4) s1(5) room'] obtain rs2 s2 where s2:
    "decode_seq OregonDecoder_v1 (manchester_encode short long b bs) s1 = Some (rs2, s2)"
    "-1 \<notin> set rs2" "buffer_bits s2 = buffer_bits s1 @ bs"
    "state s2 = OK" "flip s2 = of_bool (last (b # bs))"
    by blast
  have "decode_seq OregonDecoder_v1 (manchester_encode short long prev (b # bs)) s = Some (rs1 @ rs2, s2)"
    using s1(1) s2(1) by (simp only: manchester_encode.simps decode_seq_append) simp
  then show ?case
    using s1(2,3) s2(2,3,4,5) by auto
qed


theorem C2_round_trip_amended_witness:
  "state v1_after_sync = OK \<and> flip v1_after_sync = of_bool False
   \<and> buffer_ok v1_after_sync \<and> unat (bits v1_after_sync) < 8
   \<and> 8 * unat (pos v1_after_sync) + unat (bits v1_after_sync) + length [True, True, False] < 200
   \<and> (900 :: word16) \<le> 1500 \<and> (1500 :: word16) < 2300 \<and> (2300 :: word16) \<le> 3000 \<and> (3000 :: word16) \<le> 7000
   \<and> (\<exists>rs s'. decode_seq OregonDecoder_v1 (manchester_encode 1500 3000 False [True, True, False]) v1_after_sync
                  = Some (rs, s')
           \<and> -1 \<notin> set rs
           \<and> buffer_bits s' = buffer_bits v1_after_sync @ [True, True, False]
           \<and> state s' = OK \<and> flip s' = 0)"
proof -
  have h: "state v1_after_sync = OK" "flip v1_after_sync = of_bool False"
    "buffer_ok v1_after_sync" "unat (bits v1_after_sync) < 8"
    "8 * unat (pos v1_after_sync) + unat (bits v1_after_sync) + length [True, True, False] < 200"
    by (simp_all add: v1_after_sync_def buffer_ok_def sizeof_data_def)
  have w: "(900 :: word16) \<le> 1500" "(1500 :: word16) < 2300" "(2300 :: word16) \<le> 3000" "(3000 :: word16) \<le> 7000"
    by simp_all
  show ?thesis
    using h w C2_round_trip_amended [OF h w] by simp
qed


text \<open>
  Claim C3. The v2.1 bit-emission routine, called any number of times on a decoder whose
  byte position is the total-bits counter divided by 16 (as it is after a reset and after
  every call), commits a bit to the buffer only on every other call, exactly when the
  counter is even at the time of the call (\<open>every_other_commit\<close>); every call increments
  the counter (a \<open>byte\<close>), and the byte position is again the counter divided by 16.
\<close>

theorem C3_gotBit_v2_every_other:
  assumes "length (data s) = sizeof_data" "unat (pos s) = unat (total_bits s) div 16"
  shows "\<exists>s'. gotBit_seq OregonDecoder_v2 vs s = Some s'
           \<and> data s' = every_other_commit vs (total_bits s) (data s)
           \<and> total_bits s' = total_bits s + of_nat (length vs)
           \<and> unat (pos s') = unat (total_bits s') div 16"
  using gotBit_v2_seq [OF assms, of vs] by blast

theorem C3_gotBit_v2_every_other_witness:
  "length (data (DecodeOOK_ctor zeroed_storage)) = sizeof_data
   \<and> unat (pos (DecodeOOK_ctor zeroed_storage)) = unat (total_bits (DecodeOOK_ctor zeroed_storage)) div 16
   \<and> (\<exists>s'. gotBit_seq OregonDecoder_v2 [1, 1, 0, 0, 1] (DecodeOOK_ctor zeroed_storage) = Some s'
           \<and> data s' = (replicate 25 0)[0 := 0xA0]
           \<and> total_bits s' = 5
           \<and> unat (pos s') = 0)"
  using C3_gotBit_v2_every_other [of "DecodeOOK_ctor zeroed_storage" "[1, 1, 0, 0, 1]"]
  by (auto simp: DecodeOOK_ctor_def resetDecoder_def zeroed_storage_def sizeof_data_def)

text \<open>
  Claim C6, as stated: for every packet \<open>getChannel\<close> of either device returns a channel
  in {1, 2, 3}. It fails on the v1 packet 14 53 02 69, whose checksum is valid and whose
  channel code is 0x1: the \<open>switch\<close> has no case for it and the result is the initial 0.
\<close>

theorem C6_getChannel_counterexample:
  "getChannel OregonDevice_v1 [0x14, 0x53, 0x02, 0x69] = Some 0
   \<and> validateChecksum OregonDevice_v1 [0x14, 0x53, 0x02, 0x69] = Some True
   \<and> (0 :: byte) \<notin> {1, 2, 3}"
  by (simp add: getChannel_v1_eval validateChecksum_v1_eval)

text \<open>
  Claim C6, amended. The v1 \<open>getChannel\<close> computes the channel from the 4-bit code in the
  high nibble of \<open>data[0]\<close>: codes 0x0 and 0x2 give channel 1, code 0x4 gives 2, code 0x8
  gives 3, and every other code gives 0. The v2.1 \<open>getChannel\<close> computes it from the high
  nibble of \<open>data[2]\<close>: code 0x1 gives channel 1 and code 0x2 gives channel 2.
\<close>

theorem C6_getChannel_amended:
  "getChannel OregonDevice_v1 (d0 # rest) =
     Some (if unat d0 div 16 = 0 \<or> unat d0 div 16 = 2 then 1
           else if unat d0 div 16 = 4 then 2
           else if unat d0 div 16 = 8 then 3
           else 0)
   \<and> (unat d2 div 16 = 1 \<longrightarrow> getChannel OregonDevice_v2 (e0 # e1 # d2 # rest') = Some 1)
   \<and> (unat d2 div 16 = 2 \<longrightarrow> getChannel OregonDevice_v2 (e0 # e1 # d2 # rest') = Some 2)"
  by (simp add: getChannel_v1_eval getChannel_v2_eval)

theorem C6_getChannel_amended_witness:
  "unat (0x20 :: byte) div 16 = 2 \<and> unat (0x10 :: byte) div 16 = 1
   \<and> getChannel OregonDevice_v1 [0x44, 0x53, 0x02, 0x99] = Some 2
   \<and> getChannel OregonDevice_v2 [0x1A, 0x2D, 0x20, 0x8B, 0x58, 0x21, 0x40, 0xC7, 0x4C, 0x8C] = Some 2
   \<and> getChannel OregonDevice_v2 [0x1A, 0x2D, 0x10, 0x8B, 0x58, 0x21, 0x40, 0xC7, 0x4C, 0x8C] = Some 1"
  using C6_getChannel_amended [of "0x44" "[0x53, 0x02, 0x99]" "0x20" "0x1A" "0x2D"
          "[0x8B, 0x58, 0x21, 0x40, 0xC7, 0x4C, 0x8C]"]
        C6_getChannel_amended [of "0x44" "[0x53, 0x02, 0x99]" "0x10" "0x1A" "0x2D"
          "[0x8B, 0x58, 0x21, 0x40, 0xC7, 0x4C, 0x8C]"]
  by simp

text \<open>
  Claim C7, as stated: the bit buffer has a fixed capacity of 24 bytes. The array has 25
  elements, and a decoder that already holds 24 complete bytes accepts one more bit: it is
  stored in the 25th element (index 24) and the decoder is not reset.
\<close>

theorem C7_capacity_counterexample:
  "sizeof_data \<noteq> 24
   \<and> length (data full24) = sizeof_data \<and> pos full24 = 24 \<and> bits full24 = 0
   \<and> gotBit 0 full24 =
       Some (full24\<lparr>total_bits := 193, bits := 1, data := (replicate 25 0xFF)[24 := 0x7F]\<rparr>)"
  by (simp add: sizeof_data_def full24_def gotBit_def peek_def poke_def Let_def word_le_nat_alt)

text \<open>
  Claim C7, amended. The bit buffer is an array of 25 bytes, and for every sequence of
  appended bits (of either decoder class) the byte position stays inside it, never
  exceeding 24. An append of the base routine that would advance the position to 25
  resets the whole decoder instead: the result is exactly what \<open>resetDecoder\<close> produces
  (counters zero, position zero, state \<open>UNKNOWN\<close>). Every other append leaves the decoder
  in state \<open>OK\<close> with one more bit counted.
\<close>

theorem C7_position_bound_amended:
  "sizeof_data = 25
   \<and> (buffer_ok s \<longrightarrow>
        (\<exists>s'. gotBit_seq c vs s = Some s' \<and> length (data s') = 25 \<and> unat (pos s') \<le> 24))
   \<and> (buffer_ok s \<and> unat (pos s) = 24 \<and> 8 \<le> bits s + 1 \<longrightarrow>
        (\<exists>s'. gotBit v s = Some s' \<and> s' = resetDecoder s'
              \<and> s' = resetDecoder (s\<lparr>data := (data s)[24 := drop_bit 1 (data s ! 24) OR push_bit 7 v]\<rparr>)
              \<and> total_bits s' = 0 \<and> bits s' = 0 \<and> pos s' = 0 \<and> flip s' = 0 \<and> state s' = UNKNOWN))
   \<and> (buffer_ok s \<and> \<not> (unat (pos s) = 24 \<and> 8 \<le> bits s + 1) \<longrightarrow>
        (\<exists>s'. gotBit v s = Some s' \<and> state s' = OK \<and> total_bits s' = total_bits s + 1))"
proof -
  have a: "buffer_ok s \<longrightarrow>
        (\<exists>s'. gotBit_seq c vs s = Some s' \<and> length (data s') = 25 \<and> unat (pos s') \<le> 24)"
  proof
    assume "buffer_ok s"
    from gotBit_seq_buffer_ok [OF this, of c vs] obtain s'
      where "gotBit_seq c vs s = Some s'" "buffer_ok s'" by blast
    then show "\<exists>s'. gotBit_seq c vs s = Some s' \<and> length (data s') = 25 \<and> unat (pos s') \<le> 24"
      by (simp add: buffer_ok_def sizeof_data_def)
  qed
  have b: "buffer_ok s \<and> unat (pos s) = 24 \<and> 8 \<le> bits s + 1 \<longrightarrow>
        (\<exists>s'. gotBit v s = Some s' \<and> s' = resetDecoder s'
              \<and> s' = resetDecoder (s\<lparr>data := (data s)[24 := drop_bit 1 (data s ! 24) OR push_bit 7 v]\<rparr>)
              \<and> total_bits s' = 0 \<and> bits s' = 0 \<and> pos s' = 0 \<and> flip s' = 0 \<and> state s' = UNKNOWN)"
    by (simp add: gotBit_overflow) (simp add: resetDecoder_def)
  have c: "buffer_ok s \<and> \<not> (unat (pos s) = 24 \<and> 8 \<le> bits s + 1) \<longrightarrow>
        (\<exists>s'. gotBit v s = Some s' \<and> state s' = OK \<and> total_bits s' = total_bits s + 1)"
    using gotBit_no_overflow [of s v] by blast
  show ?thesis
    using a b c by (simp add: sizeof_data_def)
qed

theorem C7_position_bound_amended_witness:
  "buffer_ok (DecodeOOK_ctor zeroed_storage)
   \<and> (\<exists>s'. gotBit_seq OregonDecoder_v1 [1, 0, 1] (DecodeOOK_ctor zeroed_storage) = Some s'
          \<and> length (data s') = 25 \<and> unat (pos s') \<le> 24)
   \<and> buffer_ok full199 \<and> unat (pos full199) = 24 \<and> 8 \<le> bits full199 + 1
   \<and> gotBit 1 full199 = Some (resetDecoder (full199\<lparr>data := (replicate 25 0)[24 := 0x80]\<rparr>))
   \<and> buffer_ok full24 \<and> \<not> (unat (pos full24) = 24 \<and> 8 \<le> bits full24 + 1)
   \<and> (\<exists>s'. gotBit 1 full24 = Some s' \<and> state s' = OK \<and> total_bits s' = 193)"
proof -
  have 1: "buffer_ok (DecodeOOK_ctor zeroed_storage)"
    by (simp add: buffer_ok_def DecodeOOK_ctor_def resetDecoder_def zeroed_storage_def sizeof_data_def)
  have 2: "buffer_ok full199 \<and> unat (pos full199) = 24 \<and> 8 \<le> bits full199 + 1"
    by (simp add: buffer_ok_def full199_def sizeof_data_def)
  have 3: "buffer_ok full24 \<and> \<not> (unat (pos full24) = 24 \<and> 8 \<le> bits full24 + 1)"
    by (simp add: buffer_ok_def full24_def sizeof_data_def word_le_nat_alt)
  show ?thesis
    using 1 2 3
      C7_position_bound_amended [of "DecodeOOK_ctor zeroed_storage" OregonDecoder_v1 "[1, 0, 1]" 1]
      C7_position_bound_amended [of full199 OregonDecoder_v1 "[]" 1]
      C7_position_bound_amended [of full24 OregonDecoder_v1 "[]" 1]
    by (auto simp: full199_def full24_def)
qed

text \<open>
  Claim C8. Idempotent reset. \<open>resetDecoder\<close> is the body of the constructor, so a reset
  decoder is a just-constructed one: state \<open>UNKNOWN\<close>, the counters total bits, per-byte
  bits, position and flip all zero, and an empty buffer (valid byte count 0, no bits
  held); resetting again changes nothing. It differs from the decoder constructed over
  zeroed storage only in the bytes of the array, which lie beyond the valid count. A
  decode failure (\<open>decode\<close> returns -1) makes \<open>nextPulse\<close> leave the decoder reset, and
  after a completion the \<open>dataToDecoder\<close> of the dispatcher leaves it reset.
\<close>

theorem C8_idempotent_reset:
  "resetDecoder s = DecodeOOK_ctor s
   \<and> resetDecoder s = (DecodeOOK_ctor zeroed_storage)\<lparr>data := data s\<rparr>
   \<and> state (resetDecoder s) = UNKNOWN \<and> total_bits (resetDecoder s) = 0 \<and> bits (resetDecoder s) = 0
   \<and> pos (resetDecoder s) = 0 \<and> flip (resetDecoder s) = 0
   \<and> snd (getData (resetDecoder s)) = 0 \<and> buffer_bits (resetDecoder s) = []
   \<and> resetDecoder (resetDecoder s) = resetDecoder s
   \<and> (state s \<noteq> DONE \<and> decode_virtual c w s = Some (-1, s1) \<longrightarrow>
         nextPulse c w s = Some (False, resetDecoder s1))
   \<and> (Device_nextPulse w d = Some (True, d1) \<longrightarrow>
         dDecoder (snd (dataToDecoder d1)) = resetDecoder (dDecoder d1))"
proof (intro conjI)
  show "resetDecoder s = DecodeOOK_ctor s"
    by (simp add: DecodeOOK_ctor_def)
  show "resetDecoder s = (DecodeOOK_ctor zeroed_storage)\<lparr>data := data s\<rparr>"
    by (rule reset_eq_ctor)
  show "state (resetDecoder s) = UNKNOWN" "total_bits (resetDecoder s) = 0" "bits (resetDecoder s) = 0"
    "pos (resetDecoder s) = 0" "flip (resetDecoder s) = 0" "snd (getData (resetDecoder s)) = 0"
    "resetDecoder (resetDecoder s) = resetDecoder s"
    by (simp_all add: resetDecoder_def getData_def)
  show "buffer_bits (resetDecoder s) = []"
    by (rule buffer_bits_reset)
  show "state s \<noteq> DONE \<and> decode_virtual c w s = Some (-1, s1) \<longrightarrow>
         nextPulse c w s = Some (False, resetDecoder s1)"
    using nextPulse_failure [of s c w s1] by blast
  show "Device_nextPulse w d = Some (True, d1) \<longrightarrow>
         dDecoder (snd (dataToDecoder d1)) = resetDecoder (dDecoder d1)"
    by (simp add: dataToDecoder_resets)
qed

theorem C8_idempotent_reset_witness:
  "state (v1_after_sync\<lparr>state := T0\<rparr>) \<noteq> DONE
   \<and> decode_virtual OregonDecoder_v1 3000 (v1_after_sync\<lparr>state := T0\<rparr>)
       = Some (-1, v1_after_sync\<lparr>state := T0\<rparr>)
   \<and> nextPulse OregonDecoder_v1 3000 (v1_after_sync\<lparr>state := T0\<rparr>)
       = Some (False, DecodeOOK_ctor zeroed_storage)
   \<and> Device_nextPulse 3000 \<lparr>dclass = OregonDevice_v2, dDecoder = v2_packet_received\<rparr>
       = Some (True, \<lparr>dclass = OregonDevice_v2, dDecoder = v2_packet_received\<lparr>state := DONE\<rparr>\<rparr>)
   \<and> dDecoder (snd (dataToDecoder \<lparr>dclass = OregonDevice_v2, dDecoder = v2_packet_received\<lparr>state := DONE\<rparr>\<rparr>))
       = (DecodeOOK_ctor zeroed_storage)\<lparr>data := data v2_packet_received\<rparr>"
proof -
  have 1: "state (v1_after_sync\<lparr>state := T0\<rparr>) \<noteq> DONE
      \<and> decode_virtual OregonDecoder_v1 3000 (v1_after_sync\<lparr>state := T0\<rparr>)
          = Some (-1, v1_after_sync\<lparr>state := T0\<rparr>)"
    by (simp add: v1_after_sync_def decode_v1_def)
  have 2: "resetDecoder (v1_after_sync\<lparr>state := T0\<rparr>) = DecodeOOK_ctor zeroed_storage"
    by (simp add: v1_after_sync_def resetDecoder_def DecodeOOK_ctor_def zeroed_storage_def sizeof_data_def)
  have 3: "resetDecoder (v2_packet_received\<lparr>state := DONE\<rparr>)
      = (DecodeOOK_ctor zeroed_storage)\<lparr>data := data v2_packet_received\<rparr>"
    by (simp add: resetDecoder_def DecodeOOK_ctor_def zeroed_storage_def v2_packet_received_def)
  show ?thesis
    using 1 2 3 v2_completes
      C8_idempotent_reset [of "v1_after_sync\<lparr>state := T0\<rparr>" OregonDecoder_v1 3000 "v1_after_sync\<lparr>state := T0\<rparr>"
            "\<lparr>dclass = OregonDevice_v2, dDecoder = v2_packet_received\<rparr>"
            "\<lparr>dclass = OregonDevice_v2, dDecoder = v2_packet_received\<lparr>state := DONE\<rparr>\<rparr>"]
    by simp
qed


text \<open>
  Claim C9. For every pulse the dispatcher loop processes (a non-zero pulse, every device
  decoder in order) the loop returns, and the callback invocations it makes are, device
  by device in order, exactly the prescribed ones: the callback is invoked for a device
  exactly when one is registered, the classifier of the device reports completion for
  the pulse and \<open>validateChecksum\<close> returns true on the decoded buffer. So it is invoked
  at most once per device and pulse, and never for a packet that fails its checksum.
  The loop leaves every device as \<open>device_after_pulse\<close> says: no decoder is left in state
  \<open>DONE\<close>, and the decoder of a device that reported completion has been reset, so that
  the next pulse, whatever it is, cannot make that device deliver the packet again: at
  most one invocation per validated packet.
\<close>

theorem C9_callback_iff_completed_and_valid:
  "(pulse b \<noteq> 0 \<and> list_all device_ok (devices b) \<longrightarrow>
      (\<exists>b'. loop b = Some (b', concat (map (\<lambda>(kk, d). expected_calls (usrCallbackfunc b) (pulse b) kk d)
                                        (enumerate 0 (devices b))))
            \<and> list_all device_ok (devices b') \<and> pulse b' = 0
            \<and> devices b' = map (device_after_pulse (pulse b)) (devices b)
            \<and> list_all (\<lambda>d. state (dDecoder d) \<noteq> DONE) (devices b')))
   \<and> ((kk, dat) \<in> set (expected_calls cb p kk' d) \<longleftrightarrow>
         cb \<and> kk = kk' \<and>
         (\<exists>d1. Device_nextPulse p d = Some (True, d1) \<and> dat = data (dDecoder d1)
               \<and> validateChecksum (dclass d) dat = Some True))
   \<and> length (expected_calls cb p kk' d) \<le> 1
   \<and> (Device_nextPulse p d = Some (True, d1) \<longrightarrow>
         device_after_pulse p d = d1\<lparr>dDecoder := resetDecoder (dDecoder d1)\<rparr>
         \<and> expected_calls cb2 p2 kk2 (device_after_pulse p d) = [])
   \<and> (Device_nextPulse p d = Some (False, d1) \<longrightarrow> device_after_pulse p d = d1)"
proof (intro conjI)
  show "pulse b \<noteq> 0 \<and> list_all device_ok (devices b) \<longrightarrow>
      (\<exists>b'. loop b = Some (b', concat (map (\<lambda>(kk, d). expected_calls (usrCallbackfunc b) (pulse b) kk d)
                                        (enumerate 0 (devices b))))
            \<and> list_all device_ok (devices b') \<and> pulse b' = 0
            \<and> devices b' = map (device_after_pulse (pulse b)) (devices b)
            \<and> list_all (\<lambda>d. state (dDecoder d) \<noteq> DONE) (devices b'))"
  proof
    assume "pulse b \<noteq> 0 \<and> list_all device_ok (devices b)"
    then have h: "pulse b \<noteq> 0" "list_all device_ok (devices b)"
      by simp_all
    show "\<exists>b'. loop b = Some (b', concat (map (\<lambda>(kk, d). expected_calls (usrCallbackfunc b) (pulse b) kk d)
                                        (enumerate 0 (devices b))))
            \<and> list_all device_ok (devices b') \<and> pulse b' = 0
            \<and> devices b' = map (device_after_pulse (pulse b)) (devices b)
            \<and> list_all (\<lambda>d. state (dDecoder d) \<noteq> DONE) (devices b')"
      using loop_after [OF h] by simp
  qed
  show "(kk, dat) \<in> set (expected_calls cb p kk' d) \<longleftrightarrow>
         cb \<and> kk = kk' \<and>
         (\<exists>d1. Device_nextPulse p d = Some (True, d1) \<and> dat = data (dDecoder d1)
               \<and> validateChecksum (dclass d) dat = Some True)"
    by (rule expected_calls_iff)
  show "length (expected_calls cb p kk' d) \<le> 1"
    by (rule expected_calls_le1)
  show "Device_nextPulse p d = Some (True, d1) \<longrightarrow>
         device_after_pulse p d = d1\<lparr>dDecoder := resetDecoder (dDecoder d1)\<rparr>
         \<and> expected_calls cb2 p2 kk2 (device_after_pulse p d) = []"
    by (simp add: device_after_pulse_completed expected_calls_after_reset)
  show "Device_nextPulse p d = Some (False, d1) \<longrightarrow> device_after_pulse p d = d1"
    by (simp add: device_after_pulse_def)
qed

theorem C9_callback_iff_completed_and_valid_witness:
  "pulse bridge_at_sync_off \<noteq> 0 \<and> list_all device_ok (devices bridge_at_sync_off)
   \<and> Device_nextPulse 3000 \<lparr>dclass = OregonDevice_v2, dDecoder = v2_packet_received\<rparr>
       = Some (True, \<lparr>dclass = OregonDevice_v2, dDecoder = v2_packet_received\<lparr>state := DONE\<rparr>\<rparr>)
   \<and> Device_nextPulse 3000 (new_Device OregonDevice_v1) = Some (False, new_Device OregonDevice_v1)
   \<and> (\<exists>b'. loop bridge_at_sync_off
              = Some (b', [(1, [0x1A, 0x2D, 0x20, 0x8B, 0x58, 0x21, 0x40, 0xC7, 0x4C, 0x8C] @ replicate 15 0)])
            \<and> list_all device_ok (devices b') \<and> pulse b' = 0
            \<and> devices b' =
                [new_Device OregonDevice_v1,
                 \<lparr>dclass = OregonDevice_v2,
                  dDecoder = resetDecoder (v2_packet_received\<lparr>state := DONE\<rparr>)\<rparr>]
            \<and> list_all (\<lambda>d. state (dDecoder d) \<noteq> DONE) (devices b')
            \<and> (\<exists>b''. loop (b'\<lparr>pulse := 3000\<rparr>) = Some (b'', [])))"
proof -
  let ?v1 = "new_Device OregonDevice_v1"
  let ?v2 = "\<lparr>dclass = OregonDevice_v2, dDecoder = v2_packet_received\<rparr>"
  let ?v2d = "\<lparr>dclass = OregonDevice_v2, dDecoder = v2_packet_received\<lparr>state := DONE\<rparr>\<rparr>"
  let ?v2r = "\<lparr>dclass = OregonDevice_v2, dDecoder = resetDecoder (v2_packet_received\<lparr>state := DONE\<rparr>)\<rparr>"
  have 1: "pulse bridge_at_sync_off \<noteq> 0 \<and> list_all device_ok (devices bridge_at_sync_off)"
    by (simp add: bridge_at_sync_off_def device_ok_fresh device_ok_v2_packet)
  have 2: "expected_calls True 3000 0 ?v1 = []"
    by (simp add: expected_calls_def v1_fresh_fails)
  have 3: "expected_calls True 3000 (Suc 0) ?v2
      = [(1, [0x1A, 0x2D, 0x20, 0x8B, 0x58, 0x21, 0x40, 0xC7, 0x4C, 0x8C] @ replicate 15 0)]"
    by (simp add: expected_calls_def v2_completes) (simp add: v2_packet_received_def validateChecksum_v2_eval)
  note c1 = C9_callback_iff_completed_and_valid [THEN conjunct1, rule_format]
  note c4 = C9_callback_iff_completed_and_valid [THEN conjunct2, THEN conjunct2, THEN conjunct2, THEN conjunct1, rule_format]
  note c5 = C9_callback_iff_completed_and_valid [THEN conjunct2, THEN conjunct2, THEN conjunct2, THEN conjunct2, rule_format]
  have a1: "device_after_pulse 3000 ?v1 = ?v1"
    by (rule c5 [OF v1_fresh_fails])
  have a2: "device_after_pulse 3000 ?v2 = ?v2r"
    using c4 [OF v2_completes] by simp
  have a3: "expected_calls True 3000 (Suc 0) ?v2r = []"
    unfolding a2 [symmetric] using c4 [OF v2_completes, of True 3000 "Suc 0"] by (rule conjunct2)
  from c1 [OF 1] obtain b' where b':
    "loop bridge_at_sync_off
       = Some (b', concat (map (\<lambda>(kk, d). expected_calls (usrCallbackfunc bridge_at_sync_off)
                                  (pulse bridge_at_sync_off) kk d)
                              (enumerate 0 (devices bridge_at_sync_off))))"
    "list_all device_ok (devices b')" "pulse b' = 0"
    "devices b' = map (device_after_pulse (pulse bridge_at_sync_off)) (devices bridge_at_sync_off)"
    "list_all (\<lambda>d. state (dDecoder d) \<noteq> DONE) (devices b')"
    by blast
  have l1: "loop bridge_at_sync_off
       = Some (b', [(1, [0x1A, 0x2D, 0x20, 0x8B, 0x58, 0x21, 0x40, 0xC7, 0x4C, 0x8C] @ replicate 15 0)])"
    using b'(1) 2 3 by (simp add: bridge_at_sync_off_def)
  have dv: "devices b' = [?v1, ?v2r]"
    using b'(4) a1 a2 by (simp add: bridge_at_sync_off_def)
  have cb: "usrCallbackfunc b'"
    using b'(1) 1 by (auto simp: loop_def Let_def bridge_at_sync_off_def split: bind_splits)
  have h2: "pulse (b'\<lparr>pulse := 3000\<rparr>) \<noteq> 0 \<and> list_all device_ok (devices (b'\<lparr>pulse := 3000\<rparr>))"
    using b'(2) by simp
  from c1 [OF h2] obtain b'' where b'':
    "loop (b'\<lparr>pulse := 3000\<rparr>)
       = Some (b'', concat (map (\<lambda>(kk, d). expected_calls (usrCallbackfunc (b'\<lparr>pulse := 3000\<rparr>))
                                    (pulse (b'\<lparr>pulse := 3000\<rparr>)) kk d)
                                (enumerate 0 (devices (b'\<lparr>pulse := 3000\<rparr>)))))"
    by blast
  have l2: "loop (b'\<lparr>pulse := 3000\<rparr>) = Some (b'', [])"
    using b'' dv cb 2 a3 by simp
  show ?thesis
    using 1 v2_completes v1_fresh_fails l1 b'(2,3,5) dv l2 by blast
qed

text \<open>
  Claim C10. If the shared pulse slot holds 0 when the dispatcher polls it, \<open>loop\<close>
  returns with every device decoder untouched and no callback invoked. An interrupt that
  measures an interval of 0 stores 0 in the slot, so the \<open>loop\<close> that follows it does
  exactly what it does when the slot is empty.
\<close>

theorem C10_loop_zero_pulse:
  "(pulse b = 0 \<longrightarrow> loop b = Some (b, []))
   \<and> (ucast (micros - ucast (last_static b)) = (0 :: word16) \<longrightarrow>
        loop (externalInterrupt micros b) = Some (b\<lparr>pulse := 0\<rparr>, [])
        \<and> loop (externalInterrupt micros b) = loop (b\<lparr>pulse := 0\<rparr>))"
  by (simp add: loop_def externalInterrupt_def Let_def)

theorem C10_loop_zero_pulse_witness:
  "pulse (registerCallback OregonBridge_ctor) = 0
   \<and> loop (registerCallback OregonBridge_ctor) = Some (registerCallback OregonBridge_ctor, [])
   \<and> ucast ((7 :: 32 word) - ucast (last_static (externalInterrupt 7 (registerCallback OregonBridge_ctor))))
       = (0 :: word16)
   \<and> loop (externalInterrupt 7 (externalInterrupt 7 (registerCallback OregonBridge_ctor)))
       = Some ((externalInterrupt 7 (registerCallback OregonBridge_ctor))\<lparr>pulse := 0\<rparr>, [])"
proof -
  have 1: "pulse (registerCallback OregonBridge_ctor) = 0"
    by (simp add: registerCallback_def OregonBridge_ctor_def addDevice_def DEVICES_NUM_def)
  have 2: "ucast ((7 :: 32 word) - ucast (last_static (externalInterrupt 7 (registerCallback OregonBridge_ctor))))
       = (0 :: word16)"
    by (simp add: externalInterrupt_def registerCallback_def OregonBridge_ctor_def addDevice_def
          DEVICES_NUM_def)
  show ?thesis
    using 1 2 C10_loop_zero_pulse [of "registerCallback OregonBridge_ctor" 7]
      C10_loop_zero_pulse [of "externalInterrupt 7 (registerCallback OregonBridge_ctor)" 7]
    by simp
qed

end
